theory Spec2Isabelle
  imports Main "HOL-Library.Word" "HOL-Library.Multiset"
begin

section \<open>Results of a solver\<close>

text \<open>
  Every solver returns \<open>absl::StatusOr<std::string>\<close>: an answer or an error status.
  The model adds a third outcome for the executions the C++ standard leaves undefined
  (an index past the end of a view or a vector, the dereference of an end iterator, the
  read of a variable no \<open>switch\<close> case assigned), so that such an execution is a value
  of the model and not an unspecified HOL term.
\<close>

datatype status = InvalidArgumentError string | InternalError string

datatype 'a outcome = Answer 'a | Failure status | Undefined

fun is_error :: "'a outcome \<Rightarrow> bool" where
  "is_error (Failure e) = True"
| "is_error (Answer a) = False"
| "is_error Undefined = False"

fun is_answer :: "'a outcome \<Rightarrow> bool" where
  "is_answer (Answer a) = True"
| "is_answer (Failure e) = False"
| "is_answer Undefined = False"

fun is_invalid_argument :: "'a outcome \<Rightarrow> bool" where
  "is_invalid_argument (Failure (InvalidArgumentError m)) = True"
| "is_invalid_argument (Failure (InternalError m)) = False"
| "is_invalid_argument (Answer a) = False"
| "is_invalid_argument Undefined = False"

section \<open>String views\<close>

text \<open>
  \<open>absl::string_view\<close> is a \<open>string\<close>. \<open>find_first_not_of\<close> and \<open>find_last_not_of\<close>
  return an index, \<open>None\<close> standing for \<open>npos\<close>. \<open>substr s pos n\<close> throws when
  \<open>pos\<close> is beyond the length (\<open>None\<close>) and otherwise cuts at most \<open>n\<close> characters.
\<close>

fun find_first_not_of :: "string \<Rightarrow> string \<Rightarrow> nat option" where
  "find_first_not_of [] chars = None"
| "find_first_not_of (c # cs) chars =
     (if c \<in> set chars then map_option Suc (find_first_not_of cs chars) else Some 0)"

fun find_last_not_of :: "string \<Rightarrow> string \<Rightarrow> nat option" where
  "find_last_not_of [] chars = None"
| "find_last_not_of (c # cs) chars =
     (case find_last_not_of cs chars of
        Some k \<Rightarrow> Some (Suc k)
      | None \<Rightarrow> (if c \<in> set chars then None else Some 0))"

definition substr :: "string \<Rightarrow> nat \<Rightarrow> nat \<Rightarrow> string option" where
  "substr s pos n = (if pos > length s then None else Some (take n (drop pos s)))"

section \<open>trim.cc\<close>

definition whitespace :: string where
  "whitespace = [CHR '' '', CHR 0x0A]"

text \<open>
  \<open>TrimSpace\<close>, line by line. \<open>start\<close> and \<open>end\<close> are \<open>size_t\<close>; \<open>end - start + 1\<close>
  cannot wrap, as \<open>start \<le> end \<le> length s\<close> on every path.
\<close>

definition TrimSpace :: "string \<Rightarrow> string option" where
  "TrimSpace s =
     (let start = (case find_first_not_of s whitespace of None \<Rightarrow> 0 | Some i \<Rightarrow> i);
          end = (case find_last_not_of s whitespace of None \<Rightarrow> length s | Some j \<Rightarrow> j)
      in substr s start (end - start + 1))"

text \<open>The first and the last character of \<open>s\<close> that is not whitespace, by position.\<close>

definition first_non_space :: "string \<Rightarrow> nat \<Rightarrow> bool" where
  "first_non_space s i \<longleftrightarrow>
     i < length s \<and> s ! i \<notin> set whitespace \<and> (\<forall>k<i. s ! k \<in> set whitespace)"

definition last_non_space :: "string \<Rightarrow> nat \<Rightarrow> bool" where
  "last_non_space s j \<longleftrightarrow>
     j < length s \<and> s ! j \<notin> set whitespace \<and>
     (\<forall>k. j < k \<and> k < length s \<longrightarrow> s ! k \<in> set whitespace)"

section \<open>geometry/pos.cc\<close>

text \<open>
  \<open>struct Pos { int64_t x, y; }\<close>. The fields are 64-bit words read as two's
  complement; they are named \<open>Pos_x\<close> and \<open>Pos_y\<close> to leave \<open>x\<close> and \<open>y\<close> free as
  variables. Arithmetic on them wraps around. \<open>abs64\<close> is \<open>std::abs\<close> on \<open>int64_t\<close>.
\<close>

record Pos =
  Pos_x :: "64 word"
  Pos_y :: "64 word"

definition abs64 :: "64 word \<Rightarrow> 64 word" where
  "abs64 v = (if sint v < 0 then - v else v)"

definition Distance :: "Pos \<Rightarrow> Pos \<Rightarrow> 64 word" where
  "Distance p to = abs64 (Pos_x p - Pos_x to) + abs64 (Pos_y p - Pos_y to)"

definition Distance0 :: "Pos \<Rightarrow> 64 word" where
  "Distance0 p = Distance p \<lparr>Pos_x = 0, Pos_y = 0\<rparr>"

text \<open>
  The mathematical integers an \<open>int64_t\<close> holds, and the condition that neither
  coordinate difference of two points nor the sum of their absolute values leaves them.
\<close>

definition in_int64 :: "int \<Rightarrow> bool" where
  "in_int64 k \<longleftrightarrow> - (2 ^ 63) \<le> k \<and> k < 2 ^ 63"

definition no_overflow :: "Pos \<Rightarrow> Pos \<Rightarrow> bool" where
  "no_overflow a b \<longleftrightarrow>
     in_int64 (sint (Pos_x a) - sint (Pos_x b)) \<and>
     in_int64 (sint (Pos_y a) - sint (Pos_y b)) \<and>
     in_int64 (\<bar>sint (Pos_x a) - sint (Pos_x b)\<bar> + \<bar>sint (Pos_y a) - sint (Pos_y b)\<bar>)"

section \<open>Library functions the solvers call\<close>

text \<open>
  \<open>absl::StrSplit(input, delim)\<close> cuts at every occurrence of the delimiter and keeps
  empty pieces: the empty input gives one empty piece, an input that ends in the
  delimiter gives a last piece that is empty.
\<close>

fun StrSplit :: "string \<Rightarrow> char \<Rightarrow> string list" where
  "StrSplit [] d = [[]]"
| "StrSplit (c # cs) d =
     (if c = d then [] # StrSplit cs d
      else (case StrSplit cs d of [] \<Rightarrow> [[c]] | l # ls \<Rightarrow> (c # l) # ls))"

text \<open>
  \<open>int\<close> is 32 bits wide and \<open>int64_t\<close> 64. Their values are carried as integers, and
  every addition and multiplication that can leave the range is wrapped to two's
  complement, as the compiled code does (the C++ standard itself leaves signed overflow
  undefined).
\<close>

definition INT_MAX :: int where
  "INT_MAX = 2147483647"

definition INT_MIN :: int where
  "INT_MIN = - 2147483648"

definition in_int :: "int \<Rightarrow> bool" where
  "in_int k \<longleftrightarrow> INT_MIN \<le> k \<and> k \<le> INT_MAX"

definition wrap32 :: "int \<Rightarrow> int" where
  "wrap32 k = (k + 2147483648) mod 4294967296 - 2147483648"

definition wrap64 :: "int \<Rightarrow> int" where
  "wrap64 k = (k + 9223372036854775808) mod 18446744073709551616 - 9223372036854775808"

text \<open>
  \<open>absl::SimpleAtoi\<close> into an \<open>int\<close>, as \<open>safe_strto32_base\<close> with base 10 does it:
  ASCII whitespace is dropped on both sides, one sign is read, and the digits are
  accumulated with a range check before every step. \<open>None\<close> is the result \<open>false\<close>.
\<close>

definition ascii_isspace :: "char \<Rightarrow> bool" where
  "ascii_isspace c \<longleftrightarrow>
     c \<in> set [CHR 0x20, CHR 0x09, CHR 0x0A, CHR 0x0B, CHR 0x0C, CHR 0x0D]"

definition kAsciiToInt :: "char \<Rightarrow> int" where
  "kAsciiToInt c =
     (let n = of_char c :: int
      in if 48 \<le> n \<and> n \<le> 57 then n - 48
         else if 97 \<le> n \<and> n \<le> 122 then n - 87
         else if 65 \<le> n \<and> n \<le> 90 then n - 55
         else 36)"

fun safe_parse_positive_int :: "string \<Rightarrow> int \<Rightarrow> int option" where
  "safe_parse_positive_int [] v = Some v"
| "safe_parse_positive_int (c # cs) v =
     (let digit = kAsciiToInt c
      in if digit \<ge> 10 then None
         else if v > INT_MAX div 10 then None
         else if v * 10 > INT_MAX - digit then None
         else safe_parse_positive_int cs (v * 10 + digit))"

fun safe_parse_negative_int :: "string \<Rightarrow> int \<Rightarrow> int option" where
  "safe_parse_negative_int [] v = Some v"
| "safe_parse_negative_int (c # cs) v =
     (let digit = kAsciiToInt c
      in if digit \<ge> 10 then None
         else if v < - 214748364 then None
         else if v * 10 < INT_MIN + digit then None
         else safe_parse_negative_int cs (v * 10 - digit))"

definition SimpleAtoi :: "string \<Rightarrow> int option" where
  "SimpleAtoi text =
     (let t = rev (dropWhile ascii_isspace (rev (dropWhile ascii_isspace text)))
      in case t of
           [] \<Rightarrow> None
         | c # cs \<Rightarrow>
             if c = CHR ''-'' then (if cs = [] then None else safe_parse_negative_int cs 0)
             else if c = CHR ''+'' then (if cs = [] then None else safe_parse_positive_int cs 0)
             else safe_parse_positive_int t 0)"

text \<open>\<open>std::to_string\<close> of an integer: its decimal digits, after a minus sign if negative.\<close>

function digits10 :: "int \<Rightarrow> string" where
  "digits10 n =
     (if n < 10 then [char_of (48 + n)]
      else digits10 (n div 10) @ [char_of (48 + n mod 10)])"
  by pat_completeness auto
termination
  by (relation "measure nat") auto

declare digits10.simps [simp del]

definition to_string :: "int \<Rightarrow> string" where
  "to_string k = (if k < 0 then CHR ''-'' # digits10 (- k) else digits10 k)"

text \<open>
  \<open>std::max_element\<close> returns the position of the first largest element, and the end
  position (the length) on an empty range.
\<close>

definition max_element :: "int list \<Rightarrow> nat" where
  "max_element xs =
     (if xs = [] then 0
      else fold (\<lambda>i largest. if xs ! largest < xs ! i then i else largest) [1..<length xs] 0)"

section \<open>year2022/day01.cc\<close>

text \<open>
  The loop of \<open>calories\<close> over the lines, with the running \<open>sum\<close> (here \<open>cur_sum\<close>)
  and the vector \<open>sums\<close> as arguments. An empty line closes a group; a line
  \<open>SimpleAtoi\<close> rejects ends the function with the error.
\<close>

fun calories_loop :: "string list \<Rightarrow> int \<Rightarrow> int list \<Rightarrow> status + int list" where
  "calories_loop [] cur_sum sums = Inr sums"
| "calories_loop (line # lines) cur_sum sums =
     (if line = [] then calories_loop lines 0 (sums @ [cur_sum])
      else (case SimpleAtoi line of
              None \<Rightarrow> Inl (InvalidArgumentError
                (''invalid line couldn'' @ [CHR 0x27] @ ''t be parsed as an integer: '' @ line))
            | Some v \<Rightarrow> calories_loop lines (wrap32 (cur_sum + v)) sums))"

definition calories :: "string \<Rightarrow> status + int list" where
  "calories input = calories_loop (StrSplit input (CHR 0x0A)) 0 []"

text \<open>
  \<open>Part1\<close> dereferences what \<open>max_element\<close> returns, the end iterator when \<open>sums\<close> is
  empty. \<open>Part2\<close> sorts in descending order and reads the positions 0, 1 and 2 with
  \<open>operator[]\<close>, whatever the size of the vector.
\<close>

definition day01_Part1 :: "string \<Rightarrow> string outcome" where
  "day01_Part1 input =
     (case calories input of
        Inl e \<Rightarrow> Failure e
      | Inr sums \<Rightarrow>
          (let m = max_element sums
           in if m < length sums then Answer (to_string (sums ! m)) else Undefined))"

definition day01_Part2 :: "string \<Rightarrow> string outcome" where
  "day01_Part2 input =
     (case calories input of
        Inl e \<Rightarrow> Failure e
      | Inr sums \<Rightarrow>
          (let sorted = rev (sort sums)
           in if 2 < length sorted
              then Answer (to_string (wrap32 (wrap32 (sorted ! 0 + sorted ! 1) + sorted ! 2)))
              else Undefined))"

text \<open>
  An input has an unparsable line when one of its lines is not empty and \<open>SimpleAtoi\<close>
  does not parse it as an integer that fits in an \<open>int\<close>. Its empty lines are counted:
  each closes a group.
\<close>

definition has_unparsable_line :: "string \<Rightarrow> bool" where
  "has_unparsable_line input \<longleftrightarrow>
     list_ex (\<lambda>l. l \<noteq> [] \<and> SimpleAtoi l = None) (StrSplit input (CHR 0x0A))"

definition empty_lines :: "string \<Rightarrow> nat" where
  "empty_lines input = length (filter (\<lambda>l. l = []) (StrSplit input (CHR 0x0A)))"

text \<open>
  The inputs the puzzle describes. A decimal integer is an optional minus sign and at
  least one digit; its value is read digit by digit from the left. \<open>day01_input\<close> writes
  groups of lines as text: every line ends in a newline, and one empty line stands
  between two groups.
\<close>

definition is_digit :: "char \<Rightarrow> bool" where
  "is_digit c \<longleftrightarrow> 48 \<le> (of_char c :: int) \<and> (of_char c :: int) \<le> 57"

definition digit_value :: "char \<Rightarrow> int" where
  "digit_value c = of_char c - 48"

definition digits_value :: "int \<Rightarrow> string \<Rightarrow> int" where
  "digits_value v cs = foldl (\<lambda>a c. a * 10 + digit_value c) v cs"

definition is_decimal :: "string \<Rightarrow> bool" where
  "is_decimal l \<longleftrightarrow>
     (case l of
        [] \<Rightarrow> False
      | c # cs \<Rightarrow> if c = CHR ''-'' then cs \<noteq> [] \<and> list_all is_digit cs
                 else list_all is_digit l)"

definition decimal_value :: "string \<Rightarrow> int" where
  "decimal_value l =
     (case l of
        [] \<Rightarrow> 0
      | c # cs \<Rightarrow> if c = CHR ''-'' then - digits_value 0 cs else digits_value 0 l)"

definition group_text :: "string list \<Rightarrow> string" where
  "group_text g = concat (map (\<lambda>l. l @ [CHR 0x0A]) g)"

fun day01_input :: "string list list \<Rightarrow> string" where
  "day01_input [] = []"
| "day01_input [g] = group_text g"
| "day01_input (g # gs) = group_text g @ [CHR 0x0A] @ day01_input gs"

text \<open>
  A group is well formed when it has a line, every line is a decimal integer that fits
  in an \<open>int\<close>, and so does the sum of the first \<open>k\<close> lines for every \<open>k\<close>: the running
  sum of the loop never leaves the \<open>int\<close> range.
\<close>

definition group_sum :: "string list \<Rightarrow> int" where
  "group_sum g = sum_list (map decimal_value g)"

definition group_ok :: "string list \<Rightarrow> bool" where
  "group_ok g \<longleftrightarrow>
     g \<noteq> [] \<and> list_all (\<lambda>l. is_decimal l \<and> in_int (decimal_value l)) g \<and>
     list_all (\<lambda>k. in_int (group_sum (take k g))) [0..<Suc (length g)]"

text \<open>
  The \<open>k\<close> largest elements of a list, largest first: the maximum is taken out \<open>k\<close>
  times.
\<close>

fun largest :: "nat \<Rightarrow> int list \<Rightarrow> int list" where
  "largest 0 xs = []"
| "largest (Suc k) xs =
     (if xs = [] then [] else Max (set xs) # largest k (remove1 (Max (set xs)) xs))"

text \<open>The example input of the puzzle, as groups of lines.\<close>

definition example_groups :: "string list list" where
  "example_groups =
     [[''1000'', ''2000'', ''3000''], [''4000''], [''5000'', ''6000''],
      [''7000'', ''8000'', ''9000''], [''10000'']]"

section \<open>year2022/day25.cc\<close>

text \<open>
  \<open>snafuToDecimal\<close> reads the numeral from its last character to its first. The
  \<open>switch\<close> has no default: for any other character \<open>x\<close> is read without having been
  assigned (\<open>None\<close>). \<open>sum\<close> (here \<open>acc\<close>) and \<open>factor\<close> are \<open>int64_t\<close>.
\<close>

definition snafu_digit :: "char \<Rightarrow> int option" where
  "snafu_digit c =
     (if c = CHR ''2'' \<or> c = CHR ''1'' \<or> c = CHR ''0'' then Some (of_char c - 48)
      else if c = CHR ''-'' then Some (- 1)
      else if c = CHR ''='' then Some (- 2)
      else None)"

fun snafuToDecimal_loop :: "string \<Rightarrow> int \<Rightarrow> int \<Rightarrow> int option" where
  "snafuToDecimal_loop [] acc factor = Some acc"
| "snafuToDecimal_loop (c # cs) acc factor =
     (case snafu_digit c of
        None \<Rightarrow> None
      | Some x \<Rightarrow>
          snafuToDecimal_loop cs (wrap64 (acc + wrap64 (x * factor))) (wrap64 (factor * 5)))"

definition snafuToDecimal :: "string \<Rightarrow> int option" where
  "snafuToDecimal snafu = snafuToDecimal_loop (rev snafu) 0 1"

text \<open>
  \<open>decimalToSnafu\<close>. Division and remainder of C++ truncate towards zero. The first loop
  pushes the base-5 digits, least significant first; the second replaces a digit of 3 or
  more by that digit minus 5 and adds one to the next digit, which is past the end of
  the vector if the digit is the last one (\<open>None\<close>); the third turns the digits into
  characters, where a digit outside \<open>-2..2\<close> leaves \<open>c\<close> unassigned (\<open>None\<close>).
\<close>

definition trunc_div :: "int \<Rightarrow> int \<Rightarrow> int" where
  "trunc_div a b =
     (if (a < 0) = (b < 0) then \<bar>a\<bar> div \<bar>b\<bar> else - (\<bar>a\<bar> div \<bar>b\<bar>))"

definition trunc_mod :: "int \<Rightarrow> int \<Rightarrow> int" where
  "trunc_mod a b = a - b * trunc_div a b"

function base5_digits :: "int \<Rightarrow> int list" where
  "base5_digits n = (if n = 0 then [] else trunc_mod n 5 # base5_digits (trunc_div n 5))"
  by pat_completeness auto
termination
  by (relation "measure (\<lambda>n. nat \<bar>n\<bar>)") (auto simp: trunc_div_def)

declare base5_digits.simps [simp del]

function carry :: "nat \<Rightarrow> int list \<Rightarrow> int list option" where
  "carry i digits =
     (if i < length digits
      then (let d = digits ! i
            in if d \<ge> 3
               then (if i + 1 < length digits
                     then carry (i + 1) (digits[i := d - 5, i + 1 := digits ! (i + 1) + 1])
                     else None)
               else carry (i + 1) digits)
      else Some digits)"
  by pat_completeness auto
termination
  by (relation "measure (\<lambda>(i, digits). length digits - i)") auto

declare carry.simps [simp del]

definition snafu_char :: "int \<Rightarrow> char option" where
  "snafu_char digit =
     (if digit = - 2 then Some (CHR ''='')
      else if digit = - 1 then Some (CHR ''-'')
      else if digit = 0 \<or> digit = 1 \<or> digit = 2 then Some (char_of (48 + digit))
      else None)"

fun digits_to_string :: "int list \<Rightarrow> string option" where
  "digits_to_string [] = Some []"
| "digits_to_string (digit # digits) =
     (case snafu_char digit of
        None \<Rightarrow> None
      | Some c \<Rightarrow> map_option ((#) c) (digits_to_string digits))"

definition decimalToSnafu :: "int \<Rightarrow> string option" where
  "decimalToSnafu input =
     (case carry 0 (base5_digits input @ [0]) of
        None \<Rightarrow> None
      | Some digits \<Rightarrow>
          digits_to_string (rev (if last digits = 0 then butlast digits else digits)))"

text \<open>
  \<open>Part1\<close> splits at newlines, skips the empty pieces (\<open>absl::SkipEmpty\<close>) and adds the
  values up in an \<open>int64_t\<close>.
\<close>

fun day25_sum :: "string list \<Rightarrow> int \<Rightarrow> int option" where
  "day25_sum [] acc = Some acc"
| "day25_sum (snafu # rest) acc =
     (case snafuToDecimal snafu of
        None \<Rightarrow> None
      | Some v \<Rightarrow> day25_sum rest (wrap64 (acc + v)))"

definition day25_Part1 :: "string \<Rightarrow> string outcome" where
  "day25_Part1 input =
     (case day25_sum (filter (\<lambda>piece. piece \<noteq> []) (StrSplit input (CHR 0x0A))) 0 of
        None \<Rightarrow> Undefined
      | Some acc \<Rightarrow>
          (case decimalToSnafu acc of None \<Rightarrow> Undefined | Some s \<Rightarrow> Answer s))"

text \<open>
  What a SNAFU numeral denotes: the digits \<open>2\<close>, \<open>1\<close>, \<open>0\<close>, \<open>-\<close> (minus one) and \<open>=\<close>
  (minus two), with the powers of five as place values, the most significant digit
  first. A numeral has at least one digit.
\<close>

definition snafu_digit_value :: "char \<Rightarrow> int" where
  "snafu_digit_value c =
     (if c = CHR ''2'' then 2 else if c = CHR ''1'' then 1 else if c = CHR ''0'' then 0
      else if c = CHR ''-'' then - 1 else - 2)"

definition snafu_value :: "string \<Rightarrow> int" where
  "snafu_value s = foldl (\<lambda>a c. 5 * a + snafu_digit_value c) 0 s"

definition is_snafu :: "string \<Rightarrow> bool" where
  "is_snafu s \<longleftrightarrow> s \<noteq> [] \<and> list_all (\<lambda>c. c \<in> set ''210-='') s"

text \<open>
  The numeral that denotes a number is the one written without a leading \<open>0\<close>; zero is
  written \<open>0\<close>.
\<close>

definition snafu_denotes :: "string \<Rightarrow> int \<Rightarrow> bool" where
  "snafu_denotes s n \<longleftrightarrow>
     is_snafu s \<and> (s = ''0'' \<or> hd s \<noteq> CHR ''0'') \<and> snafu_value s = n"

text \<open>The modulus of 64-bit arithmetic.\<close>

definition modulus64 :: int where
  "modulus64 = 18446744073709551616"

text \<open>Numerals written one per line: a newline between two of them.\<close>

fun join_lines :: "string list \<Rightarrow> string" where
  "join_lines [] = []"
| "join_lines [l] = l"
| "join_lines (l # ls) = l @ [CHR 0x0A] @ join_lines ls"

text \<open>The example input of day 25.\<close>

definition example_numerals :: "string list" where
  "example_numerals =
     [''1=-0-2'', ''12111'', ''2=0='', ''21'', ''2=01'', ''111'', ''20012'', ''112'',
      ''1=-1='', ''1-12'', ''12'', ''1='', ''122'']"

text \<open>The value of a list of digits, least significant first.\<close>

fun digits_val :: "int list \<Rightarrow> int" where
  "digits_val [] = 0"
| "digits_val (d # ds) = d + 5 * digits_val ds"

section \<open>year2022/day02.cc\<close>

text \<open>
  \<open>Choice\<close> wraps the enumeration \<open>Value\<close>; a \<open>Round\<close> is two choices. \<open>Against\<close>
  returns \<open>-1\<close>, \<open>0\<close> or \<open>1\<close>.
\<close>

datatype Choice = kRock | kPaper | kScissors

fun WinsAgainst :: "Choice \<Rightarrow> Choice" where
  "WinsAgainst kRock = kScissors"
| "WinsAgainst kPaper = kRock"
| "WinsAgainst kScissors = kPaper"

fun LosesAgainst :: "Choice \<Rightarrow> Choice" where
  "LosesAgainst kRock = kPaper"
| "LosesAgainst kPaper = kScissors"
| "LosesAgainst kScissors = kRock"

definition Against :: "Choice \<Rightarrow> Choice \<Rightarrow> int" where
  "Against this other =
     (if this = other then 0 else if WinsAgainst this = other then 1 else - 1)"

record Round =
  my_choice :: Choice
  opponent_choice :: Choice

text \<open>
  \<open>operator[]\<close> of a string view: the position must be less than the size, or the
  behaviour is undefined (\<open>None\<close>).
\<close>

definition at :: "string \<Rightarrow> nat \<Rightarrow> char option" where
  "at s i = (if i < length s then Some (s ! i) else None)"

text \<open>
  \<open>Round::Parse\<close> reads \<open>line[0]\<close>, returns the error if it is no choice, and only then
  reads \<open>line[2]\<close>: both without a look at the length of the line.
\<close>

definition parse_opponent :: "char \<Rightarrow> Choice option" where
  "parse_opponent c =
     (if c = CHR ''A'' then Some kRock
      else if c = CHR ''B'' then Some kPaper
      else if c = CHR ''C'' then Some kScissors
      else None)"

definition Round_Parse :: "string \<Rightarrow> bool \<Rightarrow> Round outcome" where
  "Round_Parse line part2 =
     (case at line 0 of
        None \<Rightarrow> Undefined
      | Some c0 \<Rightarrow>
          (case parse_opponent c0 of
             None \<Rightarrow> Failure (InvalidArgumentError (''invalid first character: '' @ line))
           | Some opp \<Rightarrow>
               (case at line 2 of
                  None \<Rightarrow> Undefined
                | Some c2 \<Rightarrow>
                    if c2 = CHR ''X''
                    then Answer \<lparr>my_choice = (if part2 then WinsAgainst opp else kRock),
                                  opponent_choice = opp\<rparr>
                    else if c2 = CHR ''Y''
                    then Answer \<lparr>my_choice = (if part2 then opp else kPaper),
                                  opponent_choice = opp\<rparr>
                    else if c2 = CHR ''Z''
                    then Answer \<lparr>my_choice = (if part2 then LosesAgainst opp else kScissors),
                                  opponent_choice = opp\<rparr>
                    else Failure (InvalidArgumentError
                           (''invalid second character: '' @ line)))))"

definition Round_Score :: "Round \<Rightarrow> int" where
  "Round_Score r =
     (case my_choice r of kRock \<Rightarrow> 1 | kPaper \<Rightarrow> 2 | kScissors \<Rightarrow> 3)
     + (let a = Against (my_choice r) (opponent_choice r)
        in if a = - 1 then 0 else if a = 0 then 3 else 6)"

text \<open>The loop of \<open>solve\<close>: it stops at the first empty line.\<close>

fun day02_loop :: "string list \<Rightarrow> bool \<Rightarrow> int \<Rightarrow> string outcome" where
  "day02_loop [] part2 score = Answer (to_string score)"
| "day02_loop (line # lines) part2 score =
     (if line = [] then Answer (to_string score)
      else (case Round_Parse line part2 of
              Undefined \<Rightarrow> Undefined
            | Failure e \<Rightarrow> Failure e
            | Answer r \<Rightarrow> day02_loop lines part2 (wrap32 (score + Round_Score r))))"

definition day02_solve :: "string \<Rightarrow> bool \<Rightarrow> string outcome" where
  "day02_solve input part2 = day02_loop (StrSplit input (CHR 0x0A)) part2 0"

definition day02_Part1 :: "string \<Rightarrow> string outcome" where
  "day02_Part1 input = day02_solve input False"

definition day02_Part2 :: "string \<Rightarrow> string outcome" where
  "day02_Part2 input = day02_solve input True"

section \<open>year2022/day06.cc\<close>

text \<open>
  \<open>struct Buffer\<close>: the array \<open>buf_\<close> of 14 characters, \<open>buf_start_\<close>, \<open>capacity_\<close>,
  \<open>size_\<close> (here \<open>cur_size\<close>), the array \<open>seen_\<close> of 26 counters and \<open>different_\<close>; the
  fields are written without the underscore at the end. Every access to the two arrays
  checks the index: outside the array the behaviour is undefined (\<open>None\<close>).
\<close>

record Buffer =
  buf :: "char list"
  buf_start :: nat
  capacity :: nat
  cur_size :: nat
  seen :: "int list"
  different :: int

definition Buffer_init :: "nat \<Rightarrow> Buffer" where
  "Buffer_init cap =
     \<lparr>buf = replicate 14 (CHR 0x00), buf_start = 0, capacity = cap, cur_size = 0,
      seen = replicate 26 0, different = 0\<rparr>"

text \<open>
  \<open>size_t idx = c - 'a'\<close>: the difference is converted to an unsigned 64-bit number, so a
  character before \<open>a\<close> gives a very large index. (For a byte of 128 or more the index
  depends on whether \<open>char\<close> is signed; it is past the 26 counters either way.)
\<close>

definition letter_index :: "char \<Rightarrow> int" where
  "letter_index c = (of_char c - 97) mod 18446744073709551616"

definition added :: "Buffer \<Rightarrow> char \<Rightarrow> Buffer option" where
  "added b c =
     (let idx = letter_index c
      in if idx < int (length (seen b))
         then (let n = seen b ! nat idx + 1;
                   b' = b\<lparr>seen := (seen b)[nat idx := n]\<rparr>
               in Some (if n = 1 then b'\<lparr>different := different b' + 1\<rparr> else b'))
         else None)"

definition dropped :: "Buffer \<Rightarrow> char \<Rightarrow> Buffer option" where
  "dropped b c =
     (let idx = letter_index c
      in if idx < int (length (seen b))
         then (let n = seen b ! nat idx - 1;
                   b' = b\<lparr>seen := (seen b)[nat idx := n]\<rparr>
               in Some (if n = 0 then b'\<lparr>different := different b' - 1\<rparr> else b'))
         else None)"

definition Push :: "Buffer \<Rightarrow> char \<Rightarrow> Buffer option" where
  "Push b c =
     (if cur_size b < capacity b
      then (if cur_size b < length (buf b)
            then added (b\<lparr>buf := (buf b)[cur_size b := c], cur_size := cur_size b + 1\<rparr>) c
            else None)
      else (let buf_end = buf_start b;
                start = (if buf_start b + 1 = cur_size b then 0 else buf_start b + 1)
            in if buf_end < length (buf b)
               then (case dropped (b\<lparr>buf_start := start\<rparr>) (buf b ! buf_end) of
                       None \<Rightarrow> None
                     | Some b' \<Rightarrow> added (b'\<lparr>buf := (buf b')[buf_end := c]\<rparr>) c)
               else None))"

text \<open>
  The loop of \<open>solve\<close> over the characters from position \<open>i\<close> on. The comparison of
  \<open>Different()\<close>, an \<open>int\<close>, with the \<open>size_t capacity\<close> converts the \<open>int\<close>.
\<close>

fun day06_loop :: "string \<Rightarrow> nat \<Rightarrow> nat \<Rightarrow> Buffer \<Rightarrow> string outcome" where
  "day06_loop [] i cap b = Failure (InternalError ''no answer found'')"
| "day06_loop (c # cs) i cap b =
     (case Push b c of
        None \<Rightarrow> Undefined
      | Some b' \<Rightarrow>
          if i \<ge> cap \<and> different b' mod 18446744073709551616 = int cap
          then Answer (to_string (int (i + 1)))
          else day06_loop cs (i + 1) cap b')"

text \<open>\<open>input.back()\<close> on an empty view is undefined.\<close>

definition day06_solve :: "string \<Rightarrow> bool \<Rightarrow> string outcome" where
  "day06_solve input part1 =
     (if input = [] then Undefined
      else (case (if last input = CHR 0x0A then substr input 0 (length input - 1)
                  else Some input) of
              None \<Rightarrow> Undefined
            | Some cropped \<Rightarrow>
                (let cap = (if part1 then 4 else 14)
                 in day06_loop cropped 0 cap (Buffer_init cap))))"

definition day06_Part1 :: "string \<Rightarrow> string outcome" where
  "day06_Part1 input = day06_solve input True"

definition day06_Part2 :: "string \<Rightarrow> string outcome" where
  "day06_Part2 input = day06_solve input False"

text \<open>
  A solver returns when its outcome is an answer or an error status. The inputs of day 6
  are lowercase letters.
\<close>

fun is_result :: "'a outcome \<Rightarrow> bool" where
  "is_result (Answer a) = True"
| "is_result (Failure e) = True"
| "is_result Undefined = False"

definition is_lower :: "char \<Rightarrow> bool" where
  "is_lower c \<longleftrightarrow> 97 \<le> (of_char c :: int) \<and> (of_char c :: int) \<le> 122"

text \<open>
  What \<open>Push\<close> keeps true of a buffer of capacity \<open>cap\<close>: the arrays keep their sizes,
  the buffer start lies among the characters stored, and these are lowercase letters.
\<close>

definition buffer_ok :: "nat \<Rightarrow> Buffer \<Rightarrow> bool" where
  "buffer_ok cap b \<longleftrightarrow>
     length (buf b) = 14 \<and> length (seen b) = 26 \<and> capacity b = cap \<and>
     0 < cap \<and> cap \<le> 14 \<and> cur_size b \<le> cap \<and>
     (if cur_size b = 0 then buf_start b = 0 else buf_start b < cur_size b) \<and>
     list_all is_lower (take (cur_size b) (buf b))"

text \<open>
  What the buffer holds after the characters \<open>p\<close> have been pushed: the window of the
  last \<open>cap\<close> characters of \<open>p\<close> (all of \<open>p\<close> while it is shorter), stored as a ring; a
  counter per letter of the window in \<open>seen\<close>; and the number of different letters of
  the window in \<open>different\<close>.
\<close>

definition window :: "nat \<Rightarrow> string \<Rightarrow> string" where
  "window cap p = drop (length p - cap) p"

definition counts_ok :: "string \<Rightarrow> Buffer \<Rightarrow> bool" where
  "counts_ok w b \<longleftrightarrow>
     length (seen b) = 26 \<and>
     (\<forall>c. is_lower c \<longrightarrow> seen b ! nat (letter_index c) = int (count_list w c)) \<and>
     different b = int (card (set w))"

definition buffer_holds :: "nat \<Rightarrow> string \<Rightarrow> Buffer \<Rightarrow> bool" where
  "buffer_holds cap p b \<longleftrightarrow>
     length (buf b) = 14 \<and> capacity b = cap \<and> 0 < cap \<and> cap \<le> 14 \<and>
     cur_size b = min (length p) cap \<and>
     buf_start b = (if length p \<le> cap then 0 else length p mod cap) \<and>
     (\<forall>m. length p - cap \<le> m \<and> m < length p \<longrightarrow> buf b ! (m mod cap) = p ! m) \<and>
     counts_ok (window cap p) b"

text \<open>
  The positions \<open>solve\<close> answers at: the zero-based position \<open>i\<close> of a character that
  completes \<open>cap\<close> different characters in a row, provided \<open>i\<close> is \<open>cap\<close> or more.
  \<open>first_marker\<close> is the first of them from position \<open>n\<close> on.
\<close>

definition marker_at :: "nat \<Rightarrow> string \<Rightarrow> nat \<Rightarrow> bool" where
  "marker_at cap s i \<longleftrightarrow> cap \<le> i \<and> distinct (take cap (drop (i + 1 - cap) s))"

definition first_marker :: "nat \<Rightarrow> string \<Rightarrow> nat \<Rightarrow> nat option" where
  "first_marker cap s n = find (marker_at cap s) [n..<length s]"

text \<open>
  What the puzzle asks for: the character at the zero-based position \<open>i\<close> completes a run
  when the \<open>cap\<close> characters that end there are pairwise different. \<open>first_run_end\<close> is
  the first such position.
\<close>

definition run_ends_at :: "nat \<Rightarrow> string \<Rightarrow> nat \<Rightarrow> bool" where
  "run_ends_at cap s i \<longleftrightarrow>
     cap \<le> i + 1 \<and> i < length s \<and> distinct (take cap (drop (i + 1 - cap) s))"

definition first_run_end :: "nat \<Rightarrow> string \<Rightarrow> nat option" where
  "first_run_end cap s = find (run_ends_at cap s) [0..<length s]"

section \<open>Verification: trim.cc\<close>

lemma find_first_not_of_None:
  "find_first_not_of s chars = None \<longleftrightarrow> set s \<subseteq> set chars"
  by (induction s) auto

lemma find_last_not_of_None:
  "find_last_not_of s chars = None \<longleftrightarrow> set s \<subseteq> set chars"
  by (induction s) (auto split: option.splits)

lemma find_first_not_of_Some:
  "find_first_not_of s chars = Some i \<longleftrightarrow>
     i < length s \<and> s ! i \<notin> set chars \<and> (\<forall>k<i. s ! k \<in> set chars)"
proof (induction s arbitrary: i)
  case Nil
  then show ?case by simp
next
  case (Cons c cs)
  show ?case
  proof (cases "c \<in> set chars")
    case False
    then show ?thesis
      by (cases i) auto
  next
    case True
    show ?thesis
    proof (cases i)
      case 0
      with True show ?thesis by auto
    next
      case (Suc i')
      have "(\<forall>k<Suc i'. (c # cs) ! k \<in> set chars) \<longleftrightarrow> (\<forall>k<i'. cs ! k \<in> set chars)"
        using True by (auto simp: less_Suc_eq_0_disj)
      with True Suc Cons.IH [of i'] show ?thesis
        by auto
    qed
  qed
qed

lemma find_last_not_of_Some:
  "find_last_not_of s chars = Some j \<longleftrightarrow>
     j < length s \<and> s ! j \<notin> set chars \<and> (\<forall>k. j < k \<and> k < length s \<longrightarrow> s ! k \<in> set chars)"
proof (induction s arbitrary: j)
  case Nil
  then show ?case by simp
next
  case (Cons c cs)
  show ?case
  proof (cases "find_last_not_of cs chars")
    case None
    then have all: "set cs \<subseteq> set chars"
      by (simp add: find_last_not_of_None)
    then have nth: "\<And>k. k < length cs \<Longrightarrow> cs ! k \<in> set chars"
      by (auto simp: subset_iff)
    show ?thesis
    proof (cases j)
      case 0
      with None nth show ?thesis
        by (auto simp: less_Suc_eq_0_disj)
    next
      case (Suc j')
      with None nth show ?thesis by auto
    qed
  next
    case (Some m)
    then have m: "m < length cs" "cs ! m \<notin> set chars"
      "\<forall>k. m < k \<and> k < length cs \<longrightarrow> cs ! k \<in> set chars"
      using Cons.IH [of m] by auto
    show ?thesis
    proof (cases j)
      case 0
      have "\<not> (\<forall>k. 0 < k \<and> k < Suc (length cs) \<longrightarrow> (c # cs) ! k \<in> set chars)"
        using m(1,2) by (auto intro!: exI [of _ "Suc m"])
      with Some 0 show ?thesis by auto
    next
      case (Suc j')
      have "(\<forall>k. Suc j' < k \<and> k < Suc (length cs) \<longrightarrow> (c # cs) ! k \<in> set chars)
         \<longleftrightarrow> (\<forall>k. j' < k \<and> k < length cs \<longrightarrow> cs ! k \<in> set chars)"
      proof
        assume h: "\<forall>k. Suc j' < k \<and> k < Suc (length cs) \<longrightarrow> (c # cs) ! k \<in> set chars"
        show "\<forall>k. j' < k \<and> k < length cs \<longrightarrow> cs ! k \<in> set chars"
        proof (intro allI impI)
          fix k assume "j' < k \<and> k < length cs"
          with h [rule_format, of "Suc k"] show "cs ! k \<in> set chars" by simp
        qed
      next
        assume h: "\<forall>k. j' < k \<and> k < length cs \<longrightarrow> cs ! k \<in> set chars"
        show "\<forall>k. Suc j' < k \<and> k < Suc (length cs) \<longrightarrow> (c # cs) ! k \<in> set chars"
        proof (intro allI impI)
          fix k assume k: "Suc j' < k \<and> k < Suc (length cs)"
          then obtain k' where "k = Suc k'" by (cases k) auto
          with k h [rule_format, of k'] show "(c # cs) ! k \<in> set chars" by simp
        qed
      qed
      with Some Suc Cons.IH [of j'] show ?thesis
        by auto
    qed
  qed
qed

lemma first_non_space_iff: "first_non_space s i \<longleftrightarrow> find_first_not_of s whitespace = Some i"
  by (simp add: first_non_space_def find_first_not_of_Some)

lemma last_non_space_iff: "last_non_space s j \<longleftrightarrow> find_last_not_of s whitespace = Some j"
  by (simp add: last_non_space_def find_last_not_of_Some)

lemma first_le_last:
  assumes "first_non_space s i" "last_non_space s j"
  shows "i \<le> j"
proof (rule ccontr)
  assume "\<not> i \<le> j"
  then have "j < i" by simp
  with assms show False
    by (auto simp: first_non_space_def last_non_space_def)
qed

text \<open>
  C9. If \<open>s\<close> has a character other than space and newline, \<open>TrimSpace s\<close> is the
  substring from the first such character (position \<open>i\<close>) to the last (position \<open>j\<close>),
  both included, and these positions exist; if \<open>s\<close> is not empty and all of it is
  spaces and newlines, \<open>TrimSpace s\<close> is \<open>s\<close> itself, nothing removed.
\<close>

theorem TrimSpace_first_to_last_or_unchanged:
  "((\<exists>c \<in> set s. c \<noteq> CHR '' '' \<and> c \<noteq> CHR 0x0A) \<longrightarrow>
      (\<exists>i j. first_non_space s i \<and> last_non_space s j \<and> i \<le> j \<and>
             TrimSpace s = Some (take (j - i + 1) (drop i s))))
   \<and> (s \<noteq> [] \<and> (\<forall>c \<in> set s. c = CHR '' '' \<or> c = CHR 0x0A) \<longrightarrow> TrimSpace s = Some s)"
proof (intro conjI impI)
  assume "\<exists>c \<in> set s. c \<noteq> CHR '' '' \<and> c \<noteq> CHR 0x0A"
  then have "\<not> set s \<subseteq> set whitespace"
    by (auto simp: whitespace_def)
  then obtain i j where ij: "find_first_not_of s whitespace = Some i"
      "find_last_not_of s whitespace = Some j"
    using find_first_not_of_None [of s whitespace] find_last_not_of_None [of s whitespace]
    by (cases "find_first_not_of s whitespace"; cases "find_last_not_of s whitespace") auto
  then have fl: "first_non_space s i" "last_non_space s j"
    by (simp_all add: first_non_space_iff last_non_space_iff)
  moreover have "i \<le> j"
    using fl by (rule first_le_last)
  moreover have "i < length s"
    using fl(1) by (simp add: first_non_space_def)
  then have "TrimSpace s = Some (take (j - i + 1) (drop i s))"
    using ij by (simp add: TrimSpace_def substr_def)
  ultimately show "\<exists>i j. first_non_space s i \<and> last_non_space s j \<and> i \<le> j \<and>
      TrimSpace s = Some (take (j - i + 1) (drop i s))"
    by blast
next
  assume "s \<noteq> [] \<and> (\<forall>c \<in> set s. c = CHR '' '' \<or> c = CHR 0x0A)"
  then have "set s \<subseteq> set whitespace"
    by (auto simp: whitespace_def)
  then have "find_first_not_of s whitespace = None" "find_last_not_of s whitespace = None"
    by (simp_all add: find_first_not_of_None find_last_not_of_None)
  then show "TrimSpace s = Some s"
    by (simp add: TrimSpace_def substr_def)
qed

theorem TrimSpace_first_to_last_or_unchanged_witness:
  "(\<exists>c \<in> set '' hi \<newline>''. c \<noteq> CHR '' '' \<and> c \<noteq> CHR 0x0A)
   \<and> TrimSpace '' hi \<newline>'' = Some ''hi''
   \<and> TrimSpace '' \<newline> '' = Some '' \<newline> ''"
proof -
  have ex: "\<exists>c \<in> set '' hi \<newline>''. c \<noteq> CHR '' '' \<and> c \<noteq> CHR 0x0A"
    by simp
  have all: "'' \<newline> '' \<noteq> [] \<and> (\<forall>c \<in> set '' \<newline> ''. c = CHR '' '' \<or> c = CHR 0x0A)"
    by simp
  from TrimSpace_first_to_last_or_unchanged [of "'' hi \<newline>''"] ex
  obtain i j where ij: "first_non_space '' hi \<newline>'' i" "last_non_space '' hi \<newline>'' j"
      "TrimSpace '' hi \<newline>'' = Some (take (j - i + 1) (drop i '' hi \<newline>''))"
    by blast
  from ij(1) have "i = 1"
    by (simp add: first_non_space_iff whitespace_def)
  moreover from ij(2) have "j = 2"
    by (simp add: last_non_space_iff whitespace_def)
  ultimately have "TrimSpace '' hi \<newline>'' = Some ''hi''"
    using ij(3) by simp
  moreover have "TrimSpace '' \<newline> '' = Some '' \<newline> ''"
    using TrimSpace_first_to_last_or_unchanged [of "'' \<newline> ''"] all by blast
  ultimately show ?thesis
    using ex by blast
qed

section \<open>Verification: geometry/pos.cc\<close>

lemma in_int64_abs_sum:
  assumes "in_int64 (\<bar>dx\<bar> + \<bar>dy\<bar>)"
  shows "in_int64 dx" "in_int64 (- dx)" "in_int64 \<bar>dx\<bar>"
    "in_int64 dy" "in_int64 (- dy)" "in_int64 \<bar>dy\<bar>"
  using assms unfolding in_int64_def by linarith+

lemma sint_sub: "in_int64 (sint a - sint b) \<Longrightarrow> sint (a - b :: 64 word) = sint a - sint b"
  unfolding in_int64_def
  by (simp add: sint_word_ariths signed_take_bit_int_eq_self)

lemma sint_neg: "in_int64 (- sint a) \<Longrightarrow> sint (- a :: 64 word) = - sint a"
  unfolding in_int64_def
  by (simp add: sint_word_ariths signed_take_bit_int_eq_self)

lemma sint_add: "in_int64 (sint a + sint b) \<Longrightarrow> sint (a + b :: 64 word) = sint a + sint b"
  unfolding in_int64_def
  by (simp add: sint_word_ariths signed_take_bit_int_eq_self)

lemma sint_abs64:
  assumes "in_int64 (- sint v)"
  shows "sint (abs64 v) = \<bar>sint v\<bar>"
proof (cases "sint v < 0")
  case True
  then show ?thesis
    using assms by (simp add: abs64_def sint_neg)
next
  case False
  then show ?thesis
    by (simp add: abs64_def)
qed

lemma sint_abs64_sub:
  assumes "in_int64 \<bar>sint a - sint b\<bar>"
  shows "sint (abs64 (a - b)) = \<bar>sint a - sint b\<bar>"
proof -
  have r: "in_int64 (sint a - sint b)" "in_int64 (- (sint a - sint b))"
    using assms unfolding in_int64_def by linarith+
  have s: "sint (a - b) = sint a - sint b"
    using r(1) by (rule sint_sub)
  show ?thesis
    using sint_abs64 [of "a - b"] r(2) by (simp add: s)
qed

lemma Distance_value:
  assumes "in_int64 (\<bar>sint (Pos_x a) - sint (Pos_x b)\<bar> + \<bar>sint (Pos_y a) - sint (Pos_y b)\<bar>)"
  shows "sint (Distance a b) =
       \<bar>sint (Pos_x a) - sint (Pos_x b)\<bar> + \<bar>sint (Pos_y a) - sint (Pos_y b)\<bar>"
proof -
  have x: "sint (abs64 (Pos_x a - Pos_x b)) = \<bar>sint (Pos_x a) - sint (Pos_x b)\<bar>"
    using in_int64_abs_sum(3) [OF assms] by (rule sint_abs64_sub)
  have y: "sint (abs64 (Pos_y a - Pos_y b)) = \<bar>sint (Pos_y a) - sint (Pos_y b)\<bar>"
    using in_int64_abs_sum(6) [OF assms] by (rule sint_abs64_sub)
  have "in_int64 (sint (abs64 (Pos_x a - Pos_x b)) + sint (abs64 (Pos_y a - Pos_y b)))"
    using assms by (simp only: x y)
  then have "sint (abs64 (Pos_x a - Pos_x b) + abs64 (Pos_y a - Pos_y b)) =
      sint (abs64 (Pos_x a - Pos_x b)) + sint (abs64 (Pos_y a - Pos_y b))"
    by (rule sint_add)
  then show ?thesis
    by (simp only: Distance_def x y)
qed

text \<open>
  C10. For points \<open>a\<close> and \<open>b\<close> whose coordinate differences and the sum of their
  absolute values stay within \<open>int64_t\<close>: \<open>Distance\<close> is symmetric, it is zero exactly
  when \<open>a = b\<close>, and the distance without argument is the distance to \<open>(0, 0)\<close>.
\<close>

theorem Distance_symmetric_zero_origin:
  assumes "no_overflow a b"
  shows "Distance a b = Distance b a
    \<and> (Distance a b = 0 \<longleftrightarrow> a = b)
    \<and> Distance0 a = Distance a \<lparr>Pos_x = 0, Pos_y = 0\<rparr>"
proof (intro conjI)
  have r: "in_int64 (\<bar>sint (Pos_x a) - sint (Pos_x b)\<bar> + \<bar>sint (Pos_y a) - sint (Pos_y b)\<bar>)"
    using assms by (simp add: no_overflow_def)
  have r': "in_int64 (\<bar>sint (Pos_x b) - sint (Pos_x a)\<bar> + \<bar>sint (Pos_y b) - sint (Pos_y a)\<bar>)"
    using r by (simp only: abs_minus_commute)
  have ab: "sint (Distance a b) =
      \<bar>sint (Pos_x a) - sint (Pos_x b)\<bar> + \<bar>sint (Pos_y a) - sint (Pos_y b)\<bar>"
    using r by (rule Distance_value)
  have ba: "sint (Distance b a) =
      \<bar>sint (Pos_x b) - sint (Pos_x a)\<bar> + \<bar>sint (Pos_y b) - sint (Pos_y a)\<bar>"
    using r' by (rule Distance_value)
  have "sint (Distance a b) = sint (Distance b a)"
    unfolding ab ba by (simp only: abs_minus_commute)
  then show "Distance a b = Distance b a"
    by (rule signed_word_eqI)
  have "Distance a b = 0 \<longleftrightarrow> sint (Distance a b) = 0"
    by (metis sint_0 signed_word_eqI)
  also have "\<dots> \<longleftrightarrow> sint (Pos_x a) = sint (Pos_x b) \<and> sint (Pos_y a) = sint (Pos_y b)"
    unfolding ab by linarith
  also have "\<dots> \<longleftrightarrow> Pos_x a = Pos_x b \<and> Pos_y a = Pos_y b"
    by (auto intro: signed_word_eqI)
  also have "\<dots> \<longleftrightarrow> a = b"
    by auto
  finally show "Distance a b = 0 \<longleftrightarrow> a = b" .
  show "Distance0 a = Distance a \<lparr>Pos_x = 0, Pos_y = 0\<rparr>"
    by (simp add: Distance0_def)
qed

theorem Distance_symmetric_zero_origin_witness:
  "no_overflow \<lparr>Pos_x = 3, Pos_y = - 4\<rparr> \<lparr>Pos_x = - 1, Pos_y = 2\<rparr>
   \<and> Distance \<lparr>Pos_x = 3, Pos_y = - 4\<rparr> \<lparr>Pos_x = - 1, Pos_y = 2\<rparr> = 10
   \<and> Distance \<lparr>Pos_x = - 1, Pos_y = 2\<rparr> \<lparr>Pos_x = 3, Pos_y = - 4\<rparr> = 10
   \<and> Distance0 \<lparr>Pos_x = 3, Pos_y = - 4\<rparr> = 7"
proof -
  have h: "no_overflow \<lparr>Pos_x = 3, Pos_y = - 4\<rparr> \<lparr>Pos_x = - 1, Pos_y = 2\<rparr>"
    by (simp add: no_overflow_def in_int64_def)
  have d: "Distance \<lparr>Pos_x = 3, Pos_y = - 4\<rparr> \<lparr>Pos_x = - 1, Pos_y = 2\<rparr> = 10"
    by (simp add: Distance_def abs64_def)
  have z: "Distance \<lparr>Pos_x = 3, Pos_y = - 4\<rparr> \<lparr>Pos_x = 0, Pos_y = 0\<rparr> = 7"
    by (simp add: Distance_def abs64_def)
  show ?thesis
    using Distance_symmetric_zero_origin [OF h] h d z by simp
qed

section \<open>Verification: SimpleAtoi on decimal integers\<close>

lemma is_digit_kAsciiToInt: "is_digit c \<Longrightarrow> kAsciiToInt c = digit_value c"
  by (simp add: is_digit_def kAsciiToInt_def digit_value_def)

lemma is_digit_range: "is_digit c \<Longrightarrow> 0 \<le> digit_value c \<and> digit_value c \<le> 9"
  by (simp add: is_digit_def digit_value_def)

lemma is_digit_not_space: "is_digit c \<Longrightarrow> \<not> ascii_isspace c"
  by (auto simp: is_digit_def ascii_isspace_def)

lemma digits_value_Cons: "digits_value v (c # cs) = digits_value (v * 10 + digit_value c) cs"
  by (simp add: digits_value_def)

lemma digits_value_Nil: "digits_value v [] = v"
  by (simp add: digits_value_def)

lemma digits_value_mono:
  "list_all is_digit cs \<Longrightarrow> 0 \<le> v \<Longrightarrow> v \<le> digits_value v cs"
proof (induction cs arbitrary: v)
  case Nil
  then show ?case by (simp add: digits_value_Nil)
next
  case (Cons c cs)
  have d: "0 \<le> digit_value c"
    using Cons.prems(1) by (simp add: is_digit_range)
  have "v \<le> v * 10 + digit_value c"
    using d Cons.prems(2) by linarith
  also have "\<dots> \<le> digits_value (v * 10 + digit_value c) cs"
    using Cons.prems d by (intro Cons.IH) auto
  finally show ?case
    by (simp add: digits_value_Cons)
qed

lemma safe_parse_positive_int_fits:
  "list_all is_digit cs \<Longrightarrow> 0 \<le> v \<Longrightarrow> digits_value v cs \<le> INT_MAX \<Longrightarrow>
     safe_parse_positive_int cs v = Some (digits_value v cs)"
proof (induction cs arbitrary: v)
  case Nil
  then show ?case by (simp add: digits_value_Nil)
next
  case (Cons c cs)
  let ?d = "digit_value c"
  let ?v = "v * 10 + ?d"
  have dig: "is_digit c" "list_all is_digit cs"
    using Cons.prems(1) by simp_all
  have d: "0 \<le> ?d" "?d \<le> 9"
    using dig(1) by (simp_all add: is_digit_range)
  have v': "0 \<le> ?v"
    using d Cons.prems(2) by linarith
  have "?v \<le> digits_value ?v cs"
    using dig(2) v' by (rule digits_value_mono)
  then have le: "?v \<le> INT_MAX"
    using Cons.prems(3) by (simp add: digits_value_Cons)
  then have 1: "\<not> v > INT_MAX div 10"
    using d unfolding INT_MAX_def by linarith
  have 2: "\<not> v * 10 > INT_MAX - ?d"
    using le by linarith
  have "safe_parse_positive_int cs ?v = Some (digits_value ?v cs)"
    using dig(2) v' Cons.prems(3) by (intro Cons.IH) (simp_all add: digits_value_Cons)
  then show ?case
    using 1 2 d dig(1) by (simp add: is_digit_kAsciiToInt digits_value_Cons Let_def)
qed

lemma safe_parse_positive_int_overflow:
  "list_all is_digit cs \<Longrightarrow> 0 \<le> v \<Longrightarrow> v \<le> INT_MAX \<Longrightarrow> INT_MAX < digits_value v cs \<Longrightarrow>
     safe_parse_positive_int cs v = None"
proof (induction cs arbitrary: v)
  case Nil
  then show ?case by (simp add: digits_value_Nil)
next
  case (Cons c cs)
  let ?d = "digit_value c"
  let ?v = "v * 10 + ?d"
  have dig: "is_digit c" "list_all is_digit cs"
    using Cons.prems(1) by simp_all
  have d: "0 \<le> ?d" "?d \<le> 9"
    using dig(1) by (simp_all add: is_digit_range)
  show ?case
  proof (cases "v > INT_MAX div 10 \<or> v * 10 > INT_MAX - ?d")
    case True
    then show ?thesis
      using d dig(1) by (auto simp: is_digit_kAsciiToInt Let_def)
  next
    case False
    then have le: "?v \<le> INT_MAX"
      by linarith
    have v': "0 \<le> ?v"
      using d Cons.prems(2) by linarith
    have "safe_parse_positive_int cs ?v = None"
      using dig(2) v' le Cons.prems(4) by (intro Cons.IH) (simp_all add: digits_value_Cons)
    then show ?thesis
      using False d dig(1) by (simp add: is_digit_kAsciiToInt Let_def)
  qed
qed

text \<open>The loop for a negative number accumulates the negated value.\<close>

lemma safe_parse_negative_int_fits:
  "list_all is_digit cs \<Longrightarrow> v \<le> 0 \<Longrightarrow> INT_MIN \<le> - digits_value (- v) cs \<Longrightarrow>
     safe_parse_negative_int cs v = Some (- digits_value (- v) cs)"
proof (induction cs arbitrary: v)
  case Nil
  then show ?case by (simp add: digits_value_Nil)
next
  case (Cons c cs)
  let ?d = "digit_value c"
  let ?v = "v * 10 - ?d"
  have dig: "is_digit c" "list_all is_digit cs"
    using Cons.prems(1) by simp_all
  have d: "0 \<le> ?d" "?d \<le> 9"
    using dig(1) by (simp_all add: is_digit_range)
  have neg: "- ?v = (- v) * 10 + ?d"
    by simp
  have v': "?v \<le> 0"
    using d Cons.prems(2) by linarith
  have "- ?v \<le> digits_value (- ?v) cs"
    using dig(2) v' by (intro digits_value_mono) auto
  then have ge: "INT_MIN \<le> ?v"
    using Cons.prems(3) by (simp add: digits_value_Cons)
  then have 1: "\<not> v < - 214748364"
    using d unfolding INT_MIN_def by linarith
  have 2: "\<not> v * 10 < INT_MIN + ?d"
    using ge by linarith
  have "safe_parse_negative_int cs ?v = Some (- digits_value (- ?v) cs)"
    using dig(2) v' Cons.prems(3) by (intro Cons.IH) (simp_all add: digits_value_Cons)
  then show ?case
    using 1 2 d dig(1) by (simp add: is_digit_kAsciiToInt digits_value_Cons Let_def)
qed

lemma safe_parse_negative_int_overflow:
  "list_all is_digit cs \<Longrightarrow> v \<le> 0 \<Longrightarrow> INT_MIN \<le> v \<Longrightarrow> - digits_value (- v) cs < INT_MIN \<Longrightarrow>
     safe_parse_negative_int cs v = None"
proof (induction cs arbitrary: v)
  case Nil
  then show ?case by (simp add: digits_value_Nil)
next
  case (Cons c cs)
  let ?d = "digit_value c"
  let ?v = "v * 10 - ?d"
  have dig: "is_digit c" "list_all is_digit cs"
    using Cons.prems(1) by simp_all
  have d: "0 \<le> ?d" "?d \<le> 9"
    using dig(1) by (simp_all add: is_digit_range)
  show ?case
  proof (cases "v < - 214748364 \<or> v * 10 < INT_MIN + ?d")
    case True
    then show ?thesis
      using d dig(1) by (auto simp: is_digit_kAsciiToInt Let_def)
  next
    case False
    then have ge: "INT_MIN \<le> ?v"
      by linarith
    have v': "?v \<le> 0"
      using d Cons.prems(2) by linarith
    have "safe_parse_negative_int cs ?v = None"
      using dig(2) v' ge Cons.prems(4) by (intro Cons.IH) (simp_all add: digits_value_Cons)
    then show ?thesis
      using False d dig(1) by (simp add: is_digit_kAsciiToInt Let_def)
  qed
qed

lemma strip_digits:
  assumes "list_all is_digit cs"
  shows "dropWhile ascii_isspace cs = cs" "dropWhile ascii_isspace (rev cs) = rev cs"
proof -
  show "dropWhile ascii_isspace cs = cs"
    using assms by (cases cs) (simp_all add: is_digit_not_space)
  show "dropWhile ascii_isspace (rev cs) = rev cs"
    using assms by (cases cs rule: rev_cases) (simp_all add: is_digit_not_space)
qed

lemma minus_not_space: "\<not> ascii_isspace (CHR ''-'')"
  by (simp add: ascii_isspace_def)

lemma minus_not_digit: "\<not> is_digit (CHR ''-'')"
  by (simp add: is_digit_def)

lemma plus_not_digit: "\<not> is_digit (CHR ''+'')"
  by (simp add: is_digit_def)

lemma strip_decimal:
  assumes "is_decimal l"
  shows "rev (dropWhile ascii_isspace (rev (dropWhile ascii_isspace l))) = l"
proof (cases l)
  case Nil
  then show ?thesis by simp
next
  case (Cons c cs)
  show ?thesis
  proof (cases "c = CHR ''-''")
    case True
    then have cs: "cs \<noteq> []" "list_all is_digit cs"
      using assms Cons by (simp_all add: is_decimal_def)
    then have "dropWhile ascii_isspace (rev cs @ [c]) = rev cs @ [c]"
      using strip_digits(2) [OF cs(2)] by (cases cs rule: rev_cases) (simp_all add: is_digit_not_space)
    then show ?thesis
      using Cons True by (simp add: minus_not_space)
  next
    case False
    then have "list_all is_digit l"
      using assms Cons by (simp add: is_decimal_def)
    then show ?thesis
      by (simp add: strip_digits)
  qed
qed

lemma SimpleAtoi_decimal:
  assumes "is_decimal l" "in_int (decimal_value l)"
  shows "SimpleAtoi l = Some (decimal_value l)"
proof (cases l)
  case Nil
  then show ?thesis using assms by (simp add: is_decimal_def)
next
  case (Cons c cs)
  show ?thesis
  proof (cases "c = CHR ''-''")
    case True
    then have cs: "cs \<noteq> []" "list_all is_digit cs"
      using assms Cons by (simp_all add: is_decimal_def)
    have v: "decimal_value l = - digits_value 0 cs"
      using Cons True by (simp add: decimal_value_def)
    have "safe_parse_negative_int cs 0 = Some (- digits_value (- 0) cs)"
      using cs(2) assms(2) v by (intro safe_parse_negative_int_fits) (simp_all add: in_int_def)
    then show ?thesis
      using strip_decimal [OF assms(1)] Cons True cs v by (simp add: SimpleAtoi_def)
  next
    case False
    then have dig: "list_all is_digit l"
      using assms Cons by (simp add: is_decimal_def)
    then have c: "c \<noteq> CHR ''+''"
      using Cons plus_not_digit by auto
    have v: "decimal_value l = digits_value 0 l"
      using Cons False by (simp add: decimal_value_def)
    have "safe_parse_positive_int l 0 = Some (digits_value 0 l)"
      using dig assms(2) v by (intro safe_parse_positive_int_fits) (simp_all add: in_int_def)
    then show ?thesis
      using strip_decimal [OF assms(1)] Cons False c v by (simp add: SimpleAtoi_def)
  qed
qed

lemma SimpleAtoi_decimal_overflow:
  assumes "is_decimal l" "\<not> in_int (decimal_value l)"
  shows "SimpleAtoi l = None"
proof (cases l)
  case Nil
  then show ?thesis using assms by (simp add: is_decimal_def)
next
  case (Cons c cs)
  show ?thesis
  proof (cases "c = CHR ''-''")
    case True
    then have cs: "cs \<noteq> []" "list_all is_digit cs"
      using assms Cons by (simp_all add: is_decimal_def)
    have v: "decimal_value l = - digits_value 0 cs"
      using Cons True by (simp add: decimal_value_def)
    have "0 \<le> digits_value 0 cs"
      using cs(2) by (intro digits_value_mono) auto
    then have "- digits_value (- 0) cs < INT_MIN"
      using assms(2) v by (simp add: in_int_def INT_MIN_def INT_MAX_def)
    then have "safe_parse_negative_int cs 0 = None"
      using cs(2) by (intro safe_parse_negative_int_overflow) (simp_all add: INT_MIN_def)
    then show ?thesis
      using strip_decimal [OF assms(1)] Cons True cs by (simp add: SimpleAtoi_def)
  next
    case False
    then have dig: "list_all is_digit l"
      using assms Cons by (simp add: is_decimal_def)
    then have c: "c \<noteq> CHR ''+''"
      using Cons plus_not_digit by auto
    have v: "decimal_value l = digits_value 0 l"
      using Cons False by (simp add: decimal_value_def)
    have "0 \<le> digits_value 0 l"
      using dig by (intro digits_value_mono) auto
    then have "INT_MAX < digits_value 0 l"
      using assms(2) v by (simp add: in_int_def INT_MIN_def INT_MAX_def)
    then have "safe_parse_positive_int l 0 = None"
      using dig by (intro safe_parse_positive_int_overflow) (simp_all add: INT_MAX_def)
    then show ?thesis
      using strip_decimal [OF assms(1)] Cons False c by (simp add: SimpleAtoi_def)
  qed
qed

section \<open>Verification: year2022/day01.cc\<close>

lemma StrSplit_not_Nil: "StrSplit s d \<noteq> []"
  by (induction s) (auto split: list.splits)

lemma StrSplit_line:
  "d \<notin> set l \<Longrightarrow> StrSplit (l @ d # rest) d = l # StrSplit rest d"
  by (induction l) (auto split: list.splits)

lemma StrSplit_no_delim: "d \<notin> set l \<Longrightarrow> StrSplit l d = [l]"
  by (induction l) (auto split: list.splits)

lemma StrSplit_append:
  "StrSplit (s @ d # rest) d = StrSplit s d @ StrSplit rest d"
proof (induction s)
  case Nil
  then show ?case by simp
next
  case (Cons c s)
  then show ?case
    using StrSplit_not_Nil [of s d] by (cases "StrSplit s d") auto
qed

lemma StrSplit_last_empty:
  assumes "s \<noteq> []" "last s = d"
  shows "last (StrSplit s d) = []"
proof -
  obtain s' where "s = s' @ [d]"
    using assms by (metis append_butlast_last_id)
  then show ?thesis
    using StrSplit_append [of s' d "[]"] by simp
qed

lemma is_decimal_no_newline: "is_decimal l \<Longrightarrow> CHR 0x0A \<notin> set l"
proof -
  have d: "\<And>cs. list_all is_digit cs \<Longrightarrow> CHR 0x0A \<notin> set cs"
    by (auto simp: list_all_iff is_digit_def)
  assume "is_decimal l"
  then show ?thesis
    using d by (cases l) (auto simp: is_decimal_def is_digit_def split: if_splits)
qed

lemma StrSplit_group_text:
  "list_all (\<lambda>l. CHR 0x0A \<notin> set l) g \<Longrightarrow>
     StrSplit (group_text g @ rest) (CHR 0x0A) = g @ StrSplit rest (CHR 0x0A)"
proof (induction g)
  case Nil
  then show ?case by (simp add: group_text_def)
next
  case (Cons l g)
  have "StrSplit (l @ CHR 0x0A # (group_text g @ rest)) (CHR 0x0A)
      = l # StrSplit (group_text g @ rest) (CHR 0x0A)"
    using Cons.prems by (intro StrSplit_line) simp
  then show ?case
    using Cons by (simp add: group_text_def)
qed

lemma StrSplit_day01_input:
  "groups \<noteq> [] \<Longrightarrow> list_all (list_all (\<lambda>l. CHR 0x0A \<notin> set l)) groups \<Longrightarrow>
     StrSplit (day01_input groups) (CHR 0x0A) = concat (map (\<lambda>g. g @ [[]]) groups)"
proof (induction groups rule: day01_input.induct)
  case 1
  then show ?case by simp
next
  case (2 g)
  then show ?case
    using StrSplit_group_text [of g "[]"] by simp
next
  case (3 g g' gs)
  then show ?case
    using StrSplit_group_text [of g "CHR 0x0A # day01_input (g' # gs)"] by simp
qed

text \<open>The loop of \<open>calories\<close>.\<close>

lemma wrap32_id: "in_int k \<Longrightarrow> wrap32 k = k"
  by (simp add: in_int_def INT_MIN_def INT_MAX_def wrap32_def)

lemma calories_loop_group:
  assumes "list_all (\<lambda>l. is_decimal l \<and> in_int (decimal_value l)) g"
    and "list_all (\<lambda>k. in_int (acc + group_sum (take k g))) [0..<Suc (length g)]"
  shows "calories_loop (g @ rest) acc sums = calories_loop rest (acc + group_sum g) sums"
  using assms
proof (induction g arbitrary: acc)
  case Nil
  then show ?case by (simp add: group_sum_def)
next
  case (Cons l g)
  have l: "is_decimal l" "in_int (decimal_value l)"
    using Cons.prems(1) by simp_all
  then have ne: "l \<noteq> []"
    by (auto simp: is_decimal_def)
  have atoi: "SimpleAtoi l = Some (decimal_value l)"
    using l by (rule SimpleAtoi_decimal)
  have all: "\<And>k. k \<le> length (l # g) \<Longrightarrow> in_int (acc + group_sum (take k (l # g)))"
    using Cons.prems(2) unfolding list_all_iff by (auto simp del: upt_Suc)
  have "in_int (acc + group_sum (take 1 (l # g)))"
    by (rule all) simp
  then have first: "wrap32 (acc + decimal_value l) = acc + decimal_value l"
    by (simp add: wrap32_id group_sum_def)
  have "list_all (\<lambda>k. in_int (acc + decimal_value l + group_sum (take k g))) [0..<Suc (length g)]"
  proof -
    have "in_int (acc + decimal_value l + group_sum (take k g))" if "k \<le> length g" for k
      using all [of "Suc k"] that by (simp add: group_sum_def add.assoc)
    then show ?thesis
      unfolding list_all_iff by (auto simp del: upt_Suc)
  qed
  then have "calories_loop (g @ rest) (acc + decimal_value l) sums
      = calories_loop rest (acc + decimal_value l + group_sum g) sums"
    using Cons.prems(1) by (intro Cons.IH) simp_all
  then show ?case
    using ne atoi first by (simp add: group_sum_def add.assoc)
qed

lemma calories_loop_groups:
  assumes "list_all group_ok groups"
  shows "calories_loop (concat (map (\<lambda>g. g @ [[]]) groups)) 0 sums
      = Inr (sums @ map group_sum groups)"
  using assms
proof (induction groups arbitrary: sums)
  case Nil
  then show ?case by simp
next
  case (Cons g groups)
  have ok: "list_all (\<lambda>l. is_decimal l \<and> in_int (decimal_value l)) g"
      "list_all (\<lambda>k. in_int (0 + group_sum (take k g))) [0..<Suc (length g)]"
    using Cons.prems by (simp_all add: group_ok_def)
  have "calories_loop (g @ ([] # concat (map (\<lambda>g. g @ [[]]) groups))) 0 sums
      = calories_loop ([] # concat (map (\<lambda>g. g @ [[]]) groups)) (0 + group_sum g) sums"
    using ok by (rule calories_loop_group)
  also have "\<dots> = calories_loop (concat (map (\<lambda>g. g @ [[]]) groups)) 0 (sums @ [group_sum g])"
    by simp
  also have "\<dots> = Inr ((sums @ [group_sum g]) @ map group_sum groups)"
    using Cons.prems by (intro Cons.IH) simp
  finally show ?case
    by simp
qed

lemma calories_day01_input:
  assumes "groups \<noteq> []" "list_all group_ok groups"
  shows "calories (day01_input groups) = Inr (map group_sum groups)"
proof -
  have "list_all (list_all (\<lambda>l. CHR 0x0A \<notin> set l)) groups"
    using assms(2) by (auto simp: list_all_iff group_ok_def is_decimal_no_newline)
  then have "StrSplit (day01_input groups) (CHR 0x0A) = concat (map (\<lambda>g. g @ [[]]) groups)"
    using assms(1) by (intro StrSplit_day01_input)
  then show ?thesis
    using calories_loop_groups [OF assms(2), of "[]"] by (simp add: calories_def)
qed

lemma max_element_fold:
  fixes xs :: "int list"
  assumes "m < a" "a + k \<le> length xs" "\<forall>j<a. xs ! j \<le> xs ! m"
  shows "fold (\<lambda>i largest. if xs ! largest < xs ! i then i else largest) [a..<a + k] m < a + k
    \<and> (\<forall>j<a + k. xs ! j \<le>
          xs ! fold (\<lambda>i largest. if xs ! largest < xs ! i then i else largest) [a..<a + k] m)"
  using assms
proof (induction k)
  case 0
  then show ?case by simp
next
  case (Suc k)
  let ?f = "\<lambda>i largest. if xs ! largest < xs ! i then i else largest"
  let ?r = "fold ?f [a..<a + k] m"
  have ih: "?r < a + k" "\<forall>j<a + k. xs ! j \<le> xs ! ?r"
    using Suc by simp_all
  have step: "fold ?f [a..<a + Suc k] m = ?f (a + k) ?r"
    by simp
  show ?case
  proof (cases "xs ! ?r < xs ! (a + k)")
    case True
    then have "\<forall>j<a + Suc k. xs ! j \<le> xs ! (a + k)"
      using ih(2) by (auto simp: less_Suc_eq intro: order_trans less_imp_le)
    then show ?thesis
      using True by (simp only: step) simp
  next
    case False
    then have "\<forall>j<a + Suc k. xs ! j \<le> xs ! ?r"
      using ih(2) by (auto simp: less_Suc_eq)
    then show ?thesis
      using False ih(1) by (simp only: step) simp
  qed
qed

lemma max_element_Max:
  assumes "xs \<noteq> []"
  shows "max_element xs < length xs" "xs ! max_element xs = Max (set xs)"
proof -
  let ?f = "\<lambda>i largest. if xs ! largest < xs ! i then i else largest"
  obtain k where k: "length xs = 1 + k"
    using assms by (cases xs) auto
  have "fold ?f [1..<1 + k] 0 < 1 + k \<and> (\<forall>j<1 + k. xs ! j \<le> xs ! fold ?f [1..<1 + k] 0)"
    using k by (intro max_element_fold) auto
  then have m: "max_element xs < length xs" "\<forall>j<length xs. xs ! j \<le> xs ! max_element xs"
    using assms k by (simp_all add: max_element_def)
  show "max_element xs < length xs"
    by (rule m(1))
  show "xs ! max_element xs = Max (set xs)"
  proof (rule Max_eqI [symmetric])
    show "finite (set xs)" by simp
    show "xs ! max_element xs \<in> set xs"
      using m(1) by simp
    fix y assume "y \<in> set xs"
    then show "y \<le> xs ! max_element xs"
      using m(2) by (auto simp: in_set_conv_nth)
  qed
qed

lemma max_element_Nil: "max_element [] = 0"
  by (simp add: max_element_def)

text \<open>Sorting in descending order puts the three largest elements first.\<close>

lemma Max_remove1:
  assumes "mset zs = mset (h # t)" "\<forall>y \<in> set t. y \<le> h"
  shows "Max (set zs) = (h :: int)" "mset (remove1 h zs) = mset t"
proof -
  have s: "set zs = set (h # t)"
    using assms(1) by (rule mset_eq_setD)
  show "Max (set zs) = h"
    unfolding s using assms(2) by (intro Max_eqI) auto
  show "mset (remove1 h zs) = mset t"
    using assms(1) by simp
qed

lemma sorted_desc: "sorted_wrt (\<lambda>a b. b \<le> a) (rev (sort xs))"
  by (simp add: sorted_wrt_rev)

lemma rev_sort_Cons:
  fixes xs :: "int list"
  assumes "xs \<noteq> []"
  shows "rev (sort xs) = Max (set xs) # rev (sort (remove1 (Max (set xs)) xs))"
proof -
  let ?ys = "rev (sort xs)"
  have "length ?ys = length xs"
    by simp
  then obtain a t where ys: "?ys = a # t"
    using assms by (cases ?ys) auto
  have "mset ?ys = mset xs"
    by simp
  then have ms: "mset xs = mset (a # t)"
    unfolding ys by simp
  have ord: "\<forall>y \<in> set t. y \<le> a" "sorted_wrt (\<lambda>a b. b \<le> a) t"
    using sorted_desc [of xs] unfolding ys by auto
  have a: "Max (set xs) = a" "mset (remove1 a xs) = mset t"
    using Max_remove1 [OF ms ord(1)] by simp_all
  have "sorted (rev t)"
    using ord(2) by (simp add: sorted_wrt_rev)
  then have "sort (remove1 a xs) = rev t"
    using a(2) by (intro properties_for_sort) simp_all
  then show ?thesis
    using ys a(1) by simp
qed

lemma largest_sorted: "largest k xs = take k (rev (sort xs))"
proof (induction k arbitrary: xs)
  case 0
  then show ?case by simp
next
  case (Suc k)
  show ?case
  proof (cases "xs = []")
    case True
    then show ?thesis by simp
  next
    case False
    then show ?thesis
      using rev_sort_Cons [OF False] Suc.IH by simp
  qed
qed

lemma calories_loop_error:
  "(\<exists>e. calories_loop lines acc sums = Inl e) \<longleftrightarrow>
     (\<exists>l \<in> set lines. l \<noteq> [] \<and> SimpleAtoi l = None)"
  by (induction lines acc sums rule: calories_loop.induct) (auto split: option.splits)

lemma calories_loop_invalid_argument:
  "calories_loop lines acc sums = Inl e \<Longrightarrow> \<exists>m. e = InvalidArgumentError m"
  by (induction lines acc sums rule: calories_loop.induct) (auto split: option.splits if_splits)

lemma day01_Part1_error:
  "is_error (day01_Part1 input) \<longleftrightarrow> (\<exists>e. calories input = Inl e)"
  by (auto simp: day01_Part1_def Let_def split: sum.splits)

lemma day01_Part2_error:
  "is_error (day01_Part2 input) \<longleftrightarrow> (\<exists>e. calories input = Inl e)"
  by (auto simp: day01_Part2_def Let_def split: sum.splits)

lemma day01_Part1_invalid:
  "is_error (day01_Part1 input) \<longleftrightarrow> is_invalid_argument (day01_Part1 input)"
  using calories_loop_invalid_argument [of "StrSplit input (CHR 0x0A)" 0 "[]"]
  by (auto simp: day01_Part1_def calories_def Let_def split: sum.splits)

lemma day01_Part2_invalid:
  "is_error (day01_Part2 input) \<longleftrightarrow> is_invalid_argument (day01_Part2 input)"
  using calories_loop_invalid_argument [of "StrSplit input (CHR 0x0A)" 0 "[]"]
  by (auto simp: day01_Part2_def calories_def Let_def split: sum.splits)

text \<open>
  C4, amended. For an input that ends in a newline and consists of one or more groups of
  decimal-integer lines, one empty line between two groups, where every integer and
  every running sum within a group fits in an \<open>int\<close>: \<open>Part1\<close> of day 1 returns the
  decimal representation of the largest group sum.
\<close>

theorem day01_Part1_max_group_sum:
  assumes "groups \<noteq> []" "list_all group_ok groups"
  shows "day01_Part1 (day01_input groups) = Answer (to_string (Max (set (map group_sum groups))))"
proof -
  have c: "calories (day01_input groups) = Inr (map group_sum groups)"
    using assms by (rule calories_day01_input)
  have ne: "map group_sum groups \<noteq> []"
    using assms(1) by simp
  show ?thesis
    using max_element_Max [OF ne] by (simp add: day01_Part1_def c Let_def)
qed

theorem day01_Part1_max_group_sum_witness:
  "day01_Part1 ''1000\<newline>2000\<newline>3000\<newline>\<newline>4000\<newline>\<newline>5000\<newline>6000\<newline>\<newline>7000\<newline>8000\<newline>9000\<newline>\<newline>10000\<newline>'' = Answer ''24000''"
proof -
  have ne: "example_groups \<noteq> []"
    by (simp add: example_groups_def)
  have ok: "list_all group_ok example_groups"
    by code_simp
  have inp: "day01_input example_groups = ''1000\<newline>2000\<newline>3000\<newline>\<newline>4000\<newline>\<newline>5000\<newline>6000\<newline>\<newline>7000\<newline>8000\<newline>9000\<newline>\<newline>10000\<newline>''"
    by code_simp
  have out: "to_string (Max (set (map group_sum example_groups))) = ''24000''"
    by code_simp
  show ?thesis
    using day01_Part1_max_group_sum [OF ne ok] by (simp only: inp out)
qed

text \<open>
  C4 as stated fails: a group of decimal-integer lines may hold an integer too large
  for an \<open>int\<close>, and \<open>Part1\<close> then returns an invalid-argument error; or its sum may
  leave the \<open>int\<close> range, and \<open>Part1\<close> then prints the wrapped sum.
\<close>

theorem day01_Part1_max_group_sum_counterexample:
  "list_all (list_all is_decimal) [[''3000000000'']]
   \<and> day01_input [[''3000000000'']] = ''3000000000\<newline>''
   \<and> is_invalid_argument (day01_Part1 ''3000000000\<newline>'')
   \<and> to_string (Max (set (map group_sum [[''3000000000'']]))) = ''3000000000''
   \<and> list_all (list_all is_decimal) [[''2147483647'', ''1'']]
   \<and> day01_input [[''2147483647'', ''1'']] = ''2147483647\<newline>1\<newline>''
   \<and> day01_Part1 ''2147483647\<newline>1\<newline>'' = Answer ''-2147483648''
   \<and> to_string (Max (set (map group_sum [[''2147483647'', ''1'']]))) = ''2147483648''"
  by code_simp

text \<open>
  C5, amended. For an input that ends in a newline and consists of three or more groups
  of decimal-integer lines, one empty line between two groups, where every integer and
  every running sum within a group fits in an \<open>int\<close>, and so do the sum of the two
  largest group sums and the sum of the three largest: \<open>Part2\<close> of day 1 returns the
  decimal representation of the sum of the three largest group sums.
\<close>

theorem day01_Part2_three_largest:
  assumes "2 < length groups" "list_all group_ok groups"
    and "in_int (sum_list (largest 2 (map group_sum groups)))"
    and "in_int (sum_list (largest 3 (map group_sum groups)))"
  shows "day01_Part2 (day01_input groups)
    = Answer (to_string (sum_list (largest 3 (map group_sum groups))))"
proof -
  let ?sums = "map group_sum groups"
  let ?ys = "rev (sort ?sums)"
  have ne: "groups \<noteq> []"
    using assms(1) by auto
  have c: "calories (day01_input groups) = Inr ?sums"
    using ne assms(2) by (rule calories_day01_input)
  have len: "2 < length ?ys"
    using assms(1) by simp
  obtain a ys1 where 1: "?ys = a # ys1"
    using len by (cases ?ys) auto
  obtain b ys2 where 2: "ys1 = b # ys2"
    using len 1 by (cases ys1) auto
  obtain d rest where 3: "ys2 = d # rest"
    using len 1 2 by (cases ys2) auto
  have ys: "?ys = a # b # d # rest"
    using 1 2 3 by simp
  have l2: "sum_list (largest 2 ?sums) = a + b"
    by (simp add: largest_sorted ys numeral_2_eq_2)
  have l3: "sum_list (largest 3 ?sums) = a + b + d"
    by (simp add: largest_sorted ys numeral_3_eq_3)
  have "wrap32 (wrap32 (?ys ! 0 + ?ys ! 1) + ?ys ! 2) = a + b + d"
    using assms(3,4) unfolding l2 l3 ys by (simp add: wrap32_id)
  then show ?thesis
    using len l3 by (simp add: day01_Part2_def c Let_def)
qed

theorem day01_Part2_three_largest_witness:
  "day01_Part2 ''1000\<newline>2000\<newline>3000\<newline>\<newline>4000\<newline>\<newline>5000\<newline>6000\<newline>\<newline>7000\<newline>8000\<newline>9000\<newline>\<newline>10000\<newline>'' = Answer ''45000''"
proof -
  have len: "2 < length example_groups"
    by (simp add: example_groups_def)
  have ok: "list_all group_ok example_groups"
    by code_simp
  have two: "in_int (sum_list (largest 2 (map group_sum example_groups)))"
    by code_simp
  have three: "in_int (sum_list (largest 3 (map group_sum example_groups)))"
    by code_simp
  have inp: "day01_input example_groups = ''1000\<newline>2000\<newline>3000\<newline>\<newline>4000\<newline>\<newline>5000\<newline>6000\<newline>\<newline>7000\<newline>8000\<newline>9000\<newline>\<newline>10000\<newline>''"
    by code_simp
  have out: "to_string (sum_list (largest 3 (map group_sum example_groups))) = ''45000''"
    by code_simp
  show ?thesis
    using day01_Part2_three_largest [OF len ok two three] by (simp only: inp out)
qed

text \<open>
  C5 as stated fails in the same two ways: on an integer that does not fit in an
  \<open>int\<close> \<open>Part2\<close> returns an invalid-argument error, and when the three largest group
  sums add up to more than an \<open>int\<close> holds it prints the wrapped sum.
\<close>

theorem day01_Part2_three_largest_counterexample:
  "list_all (list_all is_decimal) [[''4000000000''], [''1''], [''1'']]
   \<and> day01_input [[''4000000000''], [''1''], [''1'']] = ''4000000000\<newline>\<newline>1\<newline>\<newline>1\<newline>''
   \<and> is_invalid_argument (day01_Part2 ''4000000000\<newline>\<newline>1\<newline>\<newline>1\<newline>'')
   \<and> list_all (list_all is_decimal) [[''2147483647''], [''1''], [''1'']]
   \<and> day01_input [[''2147483647''], [''1''], [''1'']] = ''2147483647\<newline>\<newline>1\<newline>\<newline>1\<newline>''
   \<and> day01_Part2 ''2147483647\<newline>\<newline>1\<newline>\<newline>1\<newline>'' = Answer ''-2147483647''
   \<and> to_string (sum_list (largest 3 (map group_sum [[''2147483647''], [''1''], [''1'']]))) = ''2147483649''"
  by code_simp

section \<open>Verification: year2022/day25.cc\<close>

text \<open>Wrapping to 64 bits keeps the value modulo \<open>2 ^ 64\<close>.\<close>

lemma wrap64_mod_numeral: "wrap64 k mod 18446744073709551616 = k mod 18446744073709551616"
proof -
  have "wrap64 k mod 18446744073709551616
      = ((k + 9223372036854775808) mod 18446744073709551616 - 9223372036854775808) mod 18446744073709551616"
    by (simp only: wrap64_def)
  also have "\<dots> = (k + 9223372036854775808 - 9223372036854775808) mod 18446744073709551616"
    by (rule mod_diff_left_eq)
  finally show ?thesis by simp
qed

lemma wrap64_cong_numeral:
  "a mod 18446744073709551616 = b mod 18446744073709551616 \<Longrightarrow> wrap64 a = wrap64 b"
proof -
  assume h: "a mod 18446744073709551616 = b mod 18446744073709551616"
  have "(a + 9223372036854775808) mod 18446744073709551616
      = (a mod 18446744073709551616 + 9223372036854775808) mod 18446744073709551616"
    by (simp add: mod_add_left_eq)
  also have "\<dots> = (b + 9223372036854775808) mod 18446744073709551616"
    unfolding h by (simp add: mod_add_left_eq)
  finally show ?thesis
    by (simp add: wrap64_def)
qed

lemma wrap64_mod: "wrap64 k mod modulus64 = k mod modulus64"
  unfolding modulus64_def by (rule wrap64_mod_numeral)

lemma wrap64_cong: "a mod modulus64 = b mod modulus64 \<Longrightarrow> wrap64 a = wrap64 b"
  unfolding modulus64_def by (rule wrap64_cong_numeral)

lemma wrap64_id: "in_int64 k \<Longrightarrow> wrap64 k = k"
  by (simp add: in_int64_def wrap64_def)

lemma wrap64_in_int64: "in_int64 (wrap64 k)"
proof -
  have "0 \<le> (k + 9223372036854775808) mod 18446744073709551616"
    "(k + 9223372036854775808) mod 18446744073709551616 < 18446744073709551616"
    by simp_all
  then show ?thesis
    unfolding in_int64_def wrap64_def by simp
qed

lemma wrap64_add_left: "wrap64 (wrap64 a + b) = wrap64 (a + b)"
  by (rule wrap64_cong) (metis mod_add_left_eq wrap64_mod)

lemma wrap64_add_right: "wrap64 (a + wrap64 b) = wrap64 (a + b)"
  by (rule wrap64_cong) (metis mod_add_right_eq wrap64_mod)

lemma wrap64_mult_left: "wrap64 (wrap64 a * b) = wrap64 (a * b)"
  by (rule wrap64_cong) (metis mod_mult_left_eq wrap64_mod)

lemma digits_val_append: "digits_val (xs @ ys) = digits_val xs + 5 ^ length xs * digits_val ys"
  by (induction xs) (simp_all add: algebra_simps)

lemma digits_val_update:
  "i < length ds \<Longrightarrow> digits_val (ds[i := v]) = digits_val ds + (v - ds ! i) * 5 ^ i"
proof (induction ds arbitrary: i)
  case Nil
  then show ?case by simp
next
  case (Cons d ds)
  show ?case
  proof (cases i)
    case 0
    then show ?thesis by simp
  next
    case (Suc j)
    then have "digits_val (ds[j := v]) = digits_val ds + (v - ds ! j) * 5 ^ j"
      using Cons.prems by (intro Cons.IH) simp
    then show ?thesis
      using Suc by (simp add: algebra_simps)
  qed
qed

lemma trunc_nonneg: "0 \<le> n \<Longrightarrow> trunc_div n 5 = n div 5 \<and> trunc_mod n 5 = n mod 5"
proof -
  assume n: "0 \<le> n"
  then have d: "trunc_div n 5 = n div 5"
    by (simp add: trunc_div_def)
  have "trunc_mod n 5 = n - 5 * (n div 5)"
    by (simp add: trunc_mod_def d)
  also have "\<dots> = n mod 5"
    by (simp add: minus_mult_div_eq_mod)
  finally show ?thesis
    using d by simp
qed

lemma base5_digits_pos:
  "0 \<le> n \<Longrightarrow> digits_val (base5_digits n) = n \<and> list_all (\<lambda>d. 0 \<le> d \<and> d \<le> 4) (base5_digits n)"
proof (induction n rule: base5_digits.induct)
  case (1 n)
  show ?case
  proof (cases "n = 0")
    case True
    then show ?thesis
      by (simp add: base5_digits.simps)
  next
    case False
    have t: "trunc_div n 5 = n div 5" "trunc_mod n 5 = n mod 5"
      using trunc_nonneg [OF "1.prems"] by simp_all
    have "0 \<le> n div 5"
      using "1.prems" by simp
    then have ih: "digits_val (base5_digits (n div 5)) = n div 5"
        "list_all (\<lambda>d. 0 \<le> d \<and> d \<le> 4) (base5_digits (n div 5))"
      using "1.IH" [OF False] t by simp_all
    have eq: "base5_digits n = n mod 5 # base5_digits (n div 5)"
      using False t by (subst base5_digits.simps) simp
    have r: "0 \<le> n mod 5" "n mod 5 \<le> 4"
      by simp_all
    show ?thesis
      unfolding eq using ih r by simp
  qed
qed

lemma carry_balanced:
  assumes "i < length ds"
    and "\<forall>j<i. - 2 \<le> ds ! j \<and> ds ! j \<le> 2"
    and "0 \<le> ds ! i" "ds ! i \<le> 5"
    and "\<forall>j. i < j \<and> j < length ds \<longrightarrow> 0 \<le> ds ! j \<and> ds ! j \<le> 4"
    and "Suc i < length ds \<longrightarrow> last ds = 0"
    and "Suc i = length ds \<longrightarrow> ds ! i \<le> 1"
  shows "\<exists>ds'. carry i ds = Some ds' \<and> length ds' = length ds \<and>
    digits_val ds' = digits_val ds \<and> (\<forall>j<length ds'. - 2 \<le> ds' ! j \<and> ds' ! j \<le> 2)"
  using assms
proof (induction i ds rule: carry.induct)
  case (1 i ds)
  let ?d = "ds ! i"
  note i = \<open>i < length ds\<close>
  note before = \<open>\<forall>j<i. - 2 \<le> ds ! j \<and> ds ! j \<le> 2\<close>
  note after = \<open>\<forall>j. i < j \<and> j < length ds \<longrightarrow> 0 \<le> ds ! j \<and> ds ! j \<le> 4\<close>
  note last0 = \<open>Suc i < length ds \<longrightarrow> last ds = 0\<close>
  note last1 = \<open>Suc i = length ds \<longrightarrow> ds ! i \<le> 1\<close>
  have ne: "ds \<noteq> []"
    using i by auto
  show ?case
  proof (cases "?d \<ge> 3")
    case True
    then have next_in: "i + 1 < length ds"
      using i last1 by (cases "Suc i = length ds") auto
    let ?ds = "ds[i := ?d - 5, i + 1 := ds ! (i + 1) + 1]"
    have unfold: "carry i ds = carry (i + 1) ?ds"
      using i True next_in by (subst carry.simps) (simp add: Let_def)
    have n1: "0 \<le> ds ! (i + 1)" "ds ! (i + 1) \<le> 4"
      using after next_in by auto
    have p2: "\<forall>j<i + 1. - 2 \<le> ?ds ! j \<and> ?ds ! j \<le> 2"
    proof (intro allI impI)
      fix j assume "j < i + 1"
      then consider "j < i" | "j = i" by linarith
      then show "- 2 \<le> ?ds ! j \<and> ?ds ! j \<le> 2"
      proof cases
        case 1
        then show ?thesis using before by simp
      next
        case 2
        then show ?thesis using i True \<open>ds ! i \<le> 5\<close> by simp
      qed
    qed
    have p3: "0 \<le> ?ds ! (i + 1)" "?ds ! (i + 1) \<le> 5"
      using next_in n1 by simp_all
    have p5: "\<forall>j. i + 1 < j \<and> j < length ?ds \<longrightarrow> 0 \<le> ?ds ! j \<and> ?ds ! j \<le> 4"
      using after by simp
    have p6: "Suc (i + 1) < length ?ds \<longrightarrow> last ?ds = 0"
    proof
      assume a: "Suc (i + 1) < length ?ds"
      then have "last ?ds = ?ds ! (length ds - 1)"
        by (simp add: last_conv_nth ne)
      also have "\<dots> = ds ! (length ds - 1)"
        using a by simp
      also have "\<dots> = last ds"
        by (simp add: last_conv_nth ne)
      finally show "last ?ds = 0"
        using last0 a by simp
    qed
    have p7: "Suc (i + 1) = length ?ds \<longrightarrow> ?ds ! (i + 1) \<le> 1"
    proof
      assume a: "Suc (i + 1) = length ?ds"
      then have "length ds - 1 = i + 1"
        by simp
      then have "ds ! (i + 1) = last ds"
        by (simp add: last_conv_nth ne)
      then show "?ds ! (i + 1) \<le> 1"
        using last0 next_in by simp
    qed
    have val: "digits_val ?ds = digits_val ds"
    proof -
      have "digits_val (ds[i := ?d - 5]) = digits_val ds + (?d - 5 - ?d) * 5 ^ i"
        using i by (rule digits_val_update)
      moreover have "digits_val ?ds = digits_val (ds[i := ?d - 5])
          + (ds ! (i + 1) + 1 - (ds[i := ?d - 5]) ! (i + 1)) * 5 ^ (i + 1)"
        using next_in by (intro digits_val_update) simp
      ultimately show ?thesis
        by simp
    qed
    have "\<exists>ds'. carry (i + 1) ?ds = Some ds' \<and> length ds' = length ?ds \<and>
        digits_val ds' = digits_val ?ds \<and> (\<forall>j<length ds'. - 2 \<le> ds' ! j \<and> ds' ! j \<le> 2)"
      using i True next_in p2 p3 p5 p6 p7 by (intro "1.IH"(1)) simp_all
    then show ?thesis
      unfolding unfold val by simp
  next
    case False
    have unfold: "carry i ds = carry (i + 1) ds"
      using i False by (subst carry.simps) (simp add: Let_def)
    have p2: "\<forall>j<i + 1. - 2 \<le> ds ! j \<and> ds ! j \<le> 2"
    proof (intro allI impI)
      fix j assume "j < i + 1"
      then consider "j < i" | "j = i" by linarith
      then show "- 2 \<le> ds ! j \<and> ds ! j \<le> 2"
      proof cases
        case 1
        then show ?thesis using before by simp
      next
        case 2
        then show ?thesis using False \<open>0 \<le> ds ! i\<close> by simp
      qed
    qed
    show ?thesis
    proof (cases "i + 1 < length ds")
      case True
      have n1: "0 \<le> ds ! (i + 1)" "ds ! (i + 1) \<le> 5"
        using after True by auto
      have p5: "\<forall>j. i + 1 < j \<and> j < length ds \<longrightarrow> 0 \<le> ds ! j \<and> ds ! j \<le> 4"
        using after by simp
      have p6: "Suc (i + 1) < length ds \<longrightarrow> last ds = 0"
        using last0 by simp
      have p7: "Suc (i + 1) = length ds \<longrightarrow> ds ! (i + 1) \<le> 1"
      proof
        assume a: "Suc (i + 1) = length ds"
        then have "length ds - 1 = i + 1"
          by simp
        then have "ds ! (i + 1) = last ds"
          by (simp add: last_conv_nth ne)
        then show "ds ! (i + 1) \<le> 1"
          using last0 True by simp
      qed
      have "\<exists>ds'. carry (i + 1) ds = Some ds' \<and> length ds' = length ds \<and>
          digits_val ds' = digits_val ds \<and> (\<forall>j<length ds'. - 2 \<le> ds' ! j \<and> ds' ! j \<le> 2)"
        using i False True p2 n1 p5 p6 p7 by (intro "1.IH"(2)) simp_all
      then show ?thesis
        unfolding unfold by simp
    next
      case False
      then have len: "length ds = i + 1"
        using i by simp
      have "carry (i + 1) ds = Some ds"
        using False by (subst carry.simps) simp
      then show ?thesis
        unfolding unfold using p2 len by simp
    qed
  qed
qed

lemma char_of_digits:
  "char_of (48 :: int) = CHR ''0''" "char_of (49 :: int) = CHR ''1''"
  "char_of (50 :: int) = CHR ''2''"
  by code_simp+

lemma snafu_char_digit:
  assumes "- 2 \<le> d" "d \<le> 2"
  shows "\<exists>c. snafu_char d = Some c \<and> snafu_digit c = Some d"
proof -
  consider "d = - 2" | "d = - 1" | "d = 0" | "d = 1" | "d = 2"
    using assms by linarith
  then show ?thesis
    by cases (simp_all add: snafu_char_def snafu_digit_def char_of_digits)
qed

lemma digits_to_string_balanced:
  "list_all (\<lambda>d. - 2 \<le> d \<and> d \<le> 2) ds \<Longrightarrow>
     \<exists>s. digits_to_string ds = Some s \<and> map snafu_digit s = map Some ds"
proof (induction ds)
  case Nil
  then show ?case by simp
next
  case (Cons d ds)
  then obtain s where s: "digits_to_string ds = Some s" "map snafu_digit s = map Some ds"
    by auto
  obtain c where c: "snafu_char d = Some c" "snafu_digit c = Some d"
    using Cons.prems snafu_char_digit [of d] by auto
  show ?case
    using s c by simp
qed

lemma snafu_digit_Some:
  "snafu_digit c = Some d \<Longrightarrow> snafu_digit_value c = d \<and> c \<in> set ''210-=''"
  by (auto simp: snafu_digit_def snafu_digit_value_def split: if_splits)

lemma snafu_digit_alphabet:
  "c \<in> set ''210-='' \<Longrightarrow> snafu_digit c = Some (snafu_digit_value c)"
  by (auto simp: snafu_digit_def snafu_digit_value_def)

lemma snafu_value_snoc: "snafu_value (s @ [c]) = 5 * snafu_value s + snafu_digit_value c"
  by (simp add: snafu_value_def)

lemma snafu_value_digits:
  "map snafu_digit s = map Some ds \<Longrightarrow>
     snafu_value s = digits_val (rev ds) \<and> list_all (\<lambda>c. c \<in> set ''210-='') s"
proof (induction s arbitrary: ds rule: rev_induct)
  case Nil
  then show ?case by (simp add: snafu_value_def)
next
  case (snoc c s)
  then obtain d ds' where ds: "ds = ds' @ [d]" "map snafu_digit s = map Some ds'"
      "snafu_digit c = Some d"
    by (cases ds rule: rev_cases) auto
  have "snafu_value s = digits_val (rev ds')" "list_all (\<lambda>c. c \<in> set ''210-='') s"
    using snoc.IH [OF ds(2)] by simp_all
  then show ?case
    using snafu_digit_Some [OF ds(3)] ds(1) by (simp add: snafu_value_snoc)
qed

lemma is_snafu_digits: "list_all (\<lambda>c. c \<in> set ''210-='') s \<Longrightarrow>
    map snafu_digit s = map Some (map snafu_digit_value s)"
  by (induction s) (simp_all add: snafu_digit_alphabet del: set_simps)

text \<open>The loop of \<open>snafuToDecimal\<close> computes the value modulo \<open>2 ^ 64\<close>.\<close>

lemma snafuToDecimal_loop_val:
  "map snafu_digit cs = map Some ds \<Longrightarrow>
     \<exists>r. snafuToDecimal_loop cs acc f = Some r \<and>
       r mod modulus64 = (acc + f * digits_val ds) mod modulus64 \<and>
       (in_int64 acc \<longrightarrow> in_int64 r)"
proof (induction cs arbitrary: ds acc f)
  case Nil
  then show ?case by simp
next
  case (Cons c cs)
  then obtain d ds' where ds: "ds = d # ds'" "snafu_digit c = Some d"
      "map snafu_digit cs = map Some ds'"
    by (cases ds) auto
  let ?acc = "wrap64 (acc + wrap64 (d * f))"
  let ?f = "wrap64 (f * 5)"
  obtain r where r: "snafuToDecimal_loop cs ?acc ?f = Some r"
      "r mod modulus64 = (?acc + ?f * digits_val ds') mod modulus64"
      "in_int64 ?acc \<longrightarrow> in_int64 r"
    using Cons.IH [OF ds(3), of ?acc ?f] by blast
  have a: "?acc mod modulus64 = (acc + d * f) mod modulus64"
    by (simp only: wrap64_mod) (metis mod_add_right_eq wrap64_mod)
  have b: "?f mod modulus64 = (f * 5) mod modulus64"
    by (rule wrap64_mod)
  have "(?acc + ?f * digits_val ds') mod modulus64
      = ((acc + d * f) + (f * 5) * digits_val ds') mod modulus64"
    using a b by (intro mod_add_cong mod_mult_cong) simp_all
  also have "(acc + d * f) + (f * 5) * digits_val ds' = acc + f * digits_val ds"
    unfolding ds(1) by (simp add: algebra_simps)
  finally have "r mod modulus64 = (acc + f * digits_val ds) mod modulus64"
    using r(2) by simp
  then show ?case
    using r(1,3) ds(2) by (simp add: wrap64_in_int64)
qed

lemma in_int64_mod_eq:
  assumes "in_int64 a" "in_int64 b" "a mod modulus64 = b mod modulus64"
  shows "a = b"
proof -
  have "wrap64 a = wrap64 b"
    using assms(3) by (rule wrap64_cong)
  moreover have "wrap64 a = a" "wrap64 b = b"
    using assms(1,2) by (simp_all only: wrap64_id)
  ultimately show ?thesis
    by simp
qed

lemma snafuToDecimal_value:
  assumes "map snafu_digit s = map Some ds"
  shows "snafuToDecimal s = Some (wrap64 (snafu_value s))"
proof -
  have "rev (map snafu_digit s) = rev (map Some ds)"
    using assms by (rule arg_cong)
  then have m: "map snafu_digit (rev s) = map Some (rev ds)"
    by (simp only: rev_map)
  have z: "in_int64 0"
    by (simp add: in_int64_def)
  from snafuToDecimal_loop_val [OF m, of 0 1]
  obtain r where r: "snafuToDecimal_loop (rev s) 0 1 = Some r"
      "r mod modulus64 = (0 + 1 * digits_val (rev ds)) mod modulus64"
      "in_int64 0 \<longrightarrow> in_int64 r"
    by (elim exE conjE)
  have v: "snafu_value s = digits_val (rev ds)"
    using snafu_value_digits [OF assms] by (rule conjunct1)
  have rr: "in_int64 r"
    using r(3) z by (rule mp)
  have "r mod modulus64 = digits_val (rev ds) mod modulus64"
    using r(2) by (simp only: add_0 mult_1)
  also have "\<dots> = wrap64 (snafu_value s) mod modulus64"
    unfolding v by (rule wrap64_mod [symmetric])
  finally have "r mod modulus64 = wrap64 (snafu_value s) mod modulus64" .
  with rr wrap64_in_int64 have "r = wrap64 (snafu_value s)"
    by (rule in_int64_mod_eq)
  then show ?thesis
    using r(1) by (simp add: snafuToDecimal_def)
qed

text \<open>\<open>decimalToSnafu\<close> on a positive number.\<close>

text \<open>Digits between \<open>-2\<close> and \<open>2\<close> denote a number of less than half the next power of five.\<close>

lemma balanced_bound:
  "list_all (\<lambda>d. - 2 \<le> d \<and> d \<le> 2) ds \<Longrightarrow> 2 * \<bar>digits_val ds\<bar> < 5 ^ length ds"
proof (induction ds)
  case Nil
  then show ?case by simp
next
  case (Cons d ds)
  have "- 2 \<le> d" "d \<le> 2"
    using Cons.prems by simp_all
  then have d: "\<bar>d\<bar> \<le> 2"
    by linarith
  have ih: "2 * \<bar>digits_val ds\<bar> < 5 ^ length ds"
    using Cons by simp
  have "\<bar>d + 5 * digits_val ds\<bar> \<le> \<bar>d\<bar> + 5 * \<bar>digits_val ds\<bar>"
    by linarith
  then have "2 * \<bar>digits_val (d # ds)\<bar> \<le> 4 + 5 * (2 * \<bar>digits_val ds\<bar>)"
    using d by simp
  also have "\<dots> \<le> 4 + 5 * (5 ^ length ds - 1)"
    using ih by simp
  also have "\<dots> < 5 ^ length (d # ds)"
    by simp
  finally show ?case .
qed

lemma base5_digits_length:
  "0 < n \<Longrightarrow> base5_digits n \<noteq> [] \<and> 5 ^ (length (base5_digits n) - 1) \<le> n"
proof (induction n rule: base5_digits.induct)
  case (1 n)
  have ne: "n \<noteq> 0"
    using "1.prems" by simp
  have t: "trunc_div n 5 = n div 5" "trunc_mod n 5 = n mod 5"
    using trunc_nonneg [of n] "1.prems" by simp_all
  have eq: "base5_digits n = n mod 5 # base5_digits (n div 5)"
    using ne t by (subst base5_digits.simps) simp
  show ?case
  proof (cases "n div 5 = 0")
    case True
    then have "base5_digits (n div 5) = []"
      by (simp add: base5_digits.simps)
    then show ?thesis
      using eq "1.prems" by simp
  next
    case False
    then have pos: "0 < n div 5"
      using "1.prems" by (simp add: pos_imp_zdiv_pos_iff)
    have ih: "base5_digits (n div 5) \<noteq> []"
        "5 ^ (length (base5_digits (n div 5)) - 1) \<le> n div 5"
      using "1.IH" [OF ne] pos t by simp_all
    have "(5 :: int) ^ (length (base5_digits n) - 1) = 5 * 5 ^ (length (base5_digits (n div 5)) - 1)"
      unfolding eq using ih(1) by (cases "base5_digits (n div 5)") simp_all
    also have "\<dots> \<le> 5 * (n div 5)"
      using ih(2) by simp
    also have "\<dots> \<le> n"
      by linarith
    finally show ?thesis
      using eq by simp
  qed
qed

lemma digits_val_nonzero:
  assumes "list_all (\<lambda>d. - 2 \<le> d \<and> d \<le> 2) ds" "ds \<noteq> []" "last ds \<noteq> 0"
  shows "digits_val ds \<noteq> 0"
proof
  assume z: "digits_val ds = 0"
  let ?b = "butlast ds"
  have ds: "ds = ?b @ [last ds]"
    using assms(2) by simp
  have "list_all (\<lambda>d. - 2 \<le> d \<and> d \<le> 2) ?b"
    using assms(1) by (auto simp: list_all_iff dest: in_set_butlastD)
  then have b: "2 * \<bar>digits_val ?b\<bar> < 5 ^ length ?b"
    by (rule balanced_bound)
  have "digits_val ds = digits_val ?b + 5 ^ length ?b * last ds"
    by (subst ds) (simp add: digits_val_append)
  then have "\<bar>digits_val ?b\<bar> = \<bar>5 ^ length ?b * last ds\<bar>"
    using z by simp
  also have "\<dots> = 5 ^ length ?b * \<bar>last ds\<bar>"
    by (simp add: abs_mult)
  also have "\<dots> \<ge> 5 ^ length ?b * 1"
    using assms(3) by (intro mult_left_mono) simp_all
  finally have "5 ^ length ?b \<le> \<bar>digits_val ?b\<bar>"
    by simp
  then show False
    using b by simp
qed

lemma balanced_unique:
  assumes "list_all (\<lambda>d. - 2 \<le> d \<and> d \<le> 2) xs" "list_all (\<lambda>d. - 2 \<le> d \<and> d \<le> 2) ys"
    and "xs = [] \<or> last xs \<noteq> 0" "ys = [] \<or> last ys \<noteq> 0"
    and "digits_val xs = digits_val ys"
  shows "xs = ys"
  using assms
proof (induction xs arbitrary: ys)
  case Nil
  show ?case
  proof (cases "ys = []")
    case True
    then show ?thesis by simp
  next
    case False
    then have "digits_val ys \<noteq> 0"
      using Nil.prems(2,4) by (intro digits_val_nonzero) simp_all
    then show ?thesis
      using Nil.prems(5) by simp
  qed
next
  case (Cons x xs)
  show ?case
  proof (cases ys)
    case Nil
    have "digits_val (x # xs) \<noteq> 0"
      using Cons.prems(1,3) by (intro digits_val_nonzero) simp_all
    then show ?thesis
      using Cons.prems(5) Nil by simp
  next
    case (Cons y ys')
    have r: "- 2 \<le> x" "x \<le> 2" "- 2 \<le> y" "y \<le> 2"
      using Cons.prems(1,2) Cons by simp_all
    have eq: "x + 5 * digits_val xs = y + 5 * digits_val ys'"
      using Cons.prems(5) Cons by simp
    then have "x - y = 5 * (digits_val ys' - digits_val xs)"
      by simp
    then have "x = y \<and> digits_val xs = digits_val ys'"
      using r by presburger
    moreover have "xs = [] \<or> last xs \<noteq> 0" "ys' = [] \<or> last ys' \<noteq> 0"
      using Cons.prems(3,4) Cons by (auto split: if_splits)
    ultimately show ?thesis
      using Cons.IH [of ys'] Cons.prems(1,2) Cons by simp
  qed
qed

lemma snafu_digit_zero: "snafu_digit c = Some 0 \<longleftrightarrow> c = CHR ''0''"
  by (auto simp: snafu_digit_def)

lemma decimalToSnafu_pos:
  assumes "0 < n"
  shows "\<exists>s ds. decimalToSnafu n = Some s \<and> map snafu_digit s = map Some ds \<and>
    digits_val (rev ds) = n \<and> s \<noteq> [] \<and> hd s \<noteq> CHR ''0''"
proof -
  let ?b = "base5_digits n"
  let ?ds0 = "?b @ [0]"
  have b: "digits_val ?b = n" "list_all (\<lambda>d. 0 \<le> d \<and> d \<le> 4) ?b"
    using base5_digits_pos [of n] assms by simp_all
  have blen: "?b \<noteq> []" "5 ^ (length ?b - 1) \<le> n"
    using base5_digits_length [OF assms] by simp_all
  have range: "\<And>j. j < length ?ds0 \<Longrightarrow> 0 \<le> ?ds0 ! j \<and> ?ds0 ! j \<le> 4"
    using b(2) by (auto simp: list_all_length nth_append)
  have single: "Suc 0 = length ?ds0 \<longrightarrow> ?ds0 ! 0 \<le> 1"
    by (auto simp: nth_append)
  have first: "0 \<le> ?ds0 ! 0" "?ds0 ! 0 \<le> 5"
    using range [of 0] by simp_all
  have "\<exists>ds'. carry 0 ?ds0 = Some ds' \<and> length ds' = length ?ds0 \<and>
      digits_val ds' = digits_val ?ds0 \<and> (\<forall>j<length ds'. - 2 \<le> ds' ! j \<and> ds' ! j \<le> 2)"
    using range first single by (intro carry_balanced) simp_all
  then obtain ds' where ds': "carry 0 ?ds0 = Some ds'" "length ds' = length ?ds0"
      "digits_val ds' = digits_val ?ds0" "\<forall>j<length ds'. - 2 \<le> ds' ! j \<and> ds' ! j \<le> 2"
    by blast
  have ne: "ds' \<noteq> []"
    using ds'(2) by auto
  have val: "digits_val ds' = n"
    using ds'(3) b(1) by (simp add: digits_val_append)
  let ?fd = "if last ds' = 0 then butlast ds' else ds'"
  have fd_val: "digits_val ?fd = n"
  proof (cases "last ds' = 0")
    case True
    have "digits_val ds' = digits_val (butlast ds' @ [last ds'])"
      using ne by simp
    also have "\<dots> = digits_val (butlast ds')"
      unfolding True by (simp add: digits_val_append)
    finally show ?thesis
      using True val by simp
  next
    case False
    then show ?thesis using val by simp
  qed
  have all: "list_all (\<lambda>d. - 2 \<le> d \<and> d \<le> 2) ds'"
    using ds'(4) by (simp add: list_all_length)
  then have all_butlast: "list_all (\<lambda>d. - 2 \<le> d \<and> d \<le> 2) (butlast ds')"
    by (auto simp: list_all_iff dest: in_set_butlastD)
  with all have fd_bal: "list_all (\<lambda>d. - 2 \<le> d \<and> d \<le> 2) ?fd"
    by simp
  then have fd_all: "list_all (\<lambda>d. - 2 \<le> d \<and> d \<le> 2) (rev ?fd)"
    by simp
  obtain s where s: "digits_to_string (rev ?fd) = Some s" "map snafu_digit s = map Some (rev ?fd)"
    using digits_to_string_balanced [OF fd_all] by blast
  have fd_ne: "?fd \<noteq> []"
    using fd_val assms by auto
  have lead: "last ?fd \<noteq> 0"
  proof (cases "last ds' = 0")
    case False
    then show ?thesis by simp
  next
    case True
    let ?f = "butlast ds'"
    have f: "?fd = ?f" "?f \<noteq> []" "digits_val ?f = n"
      using True fd_ne fd_val by simp_all
    have len: "length ?f = length ?b"
      using ds'(2) by simp
    show ?thesis
    proof
      assume "last ?fd = 0"
      then have z: "last ?f = 0"
        using True by simp
      have "digits_val ?f = digits_val (butlast ?f @ [last ?f])"
        using f(2) by simp
      also have "\<dots> = digits_val (butlast ?f)"
        unfolding z by (simp add: digits_val_append)
      finally have v: "digits_val (butlast ?f) = n"
        using f(3) by simp
      have "list_all (\<lambda>d. - 2 \<le> d \<and> d \<le> 2) (butlast ?f)"
        using all_butlast by (auto simp: list_all_iff dest: in_set_butlastD)
      then have "2 * \<bar>digits_val (butlast ?f)\<bar> < 5 ^ length (butlast ?f)"
        by (rule balanced_bound)
      moreover have "length (butlast ?f) = length ?b - 1"
        using len by simp
      ultimately have "2 * \<bar>n\<bar> < 5 ^ (length ?b - 1)"
        unfolding v by simp
      then have "2 * n < 5 ^ (length ?b - 1)"
        using assms by simp
      then show False
        using blen(2) assms by linarith
    qed
  qed
  have s_ne: "s \<noteq> []"
    using fd_ne s(2) by auto
  have "map snafu_digit s ! 0 = map Some (rev ?fd) ! 0"
    using s(2) by simp
  then have "snafu_digit (hd s) = Some (last ?fd)"
    using s_ne fd_ne by (simp add: hd_conv_nth hd_rev [symmetric] del: hd_rev)
  then have "hd s \<noteq> CHR ''0''"
    using lead snafu_digit_zero [of "hd s"] by auto
  moreover have "decimalToSnafu n = Some s"
    using ds'(1) s(1) by (simp add: decimalToSnafu_def)
  ultimately show ?thesis
    using s(2) fd_val s_ne by (intro exI [of _ s] exI [of _ "rev ?fd"]) simp
qed

text \<open>
  C8. For every strictly positive \<open>int64_t\<close> value \<open>n\<close>, \<open>decimalToSnafu n\<close> returns a
  numeral and \<open>snafuToDecimal\<close> of that numeral returns \<open>n\<close>. (For a numeral of 28 digits
  the last \<open>factor *= 5\<close> of \<open>snafuToDecimal\<close> wraps around; the wrapped factor is never
  read.)
\<close>

theorem snafu_round_trip:
  assumes "0 < n" "in_int64 n"
  shows "\<exists>s. decimalToSnafu n = Some s \<and> snafuToDecimal s = Some n"
proof -
  obtain s ds where s: "decimalToSnafu n = Some s" "map snafu_digit s = map Some ds"
      "digits_val (rev ds) = n"
    using decimalToSnafu_pos [OF assms(1)] by blast
  have "snafu_value s = n"
    using snafu_value_digits [OF s(2)] s(3) by simp
  then have "snafuToDecimal s = Some n"
    using snafuToDecimal_value [OF s(2)] assms(2) by (simp add: wrap64_id)
  then show ?thesis
    using s(1) by blast
qed

theorem snafu_round_trip_witness:
  "decimalToSnafu 2022 = Some ''1=11-2'' \<and> snafuToDecimal ''1=11-2'' = Some 2022"
proof -
  have pos: "(0::int) < 2022"
    by simp
  have fits: "in_int64 2022"
    by (simp add: in_int64_def)
  have d: "decimalToSnafu 2022 = Some ''1=11-2''"
    by code_simp
  show ?thesis
    using snafu_round_trip [OF pos fits] unfolding d by simp
qed

lemma is_snafu_alphabet: "is_snafu p \<Longrightarrow> c \<in> set p \<Longrightarrow> c \<in> set ''210-=''"
  unfolding is_snafu_def list_all_iff by blast

lemma newline_not_snafu: "CHR 0x0A \<notin> set ''210-=''"
  by simp

lemma is_snafu_no_newline: "is_snafu p \<Longrightarrow> CHR 0x0A \<notin> set p"
  using is_snafu_alphabet newline_not_snafu by blast

lemma StrSplit_join_lines:
  "ns \<noteq> [] \<Longrightarrow> list_all is_snafu ns \<Longrightarrow> StrSplit (join_lines ns) (CHR 0x0A) = ns"
proof (induction ns rule: join_lines.induct)
  case 1
  then show ?case by simp
next
  case (2 l)
  then show ?case
    by (simp add: StrSplit_no_delim is_snafu_no_newline)
next
  case (3 l l' ls)
  have "StrSplit (l @ CHR 0x0A # join_lines (l' # ls)) (CHR 0x0A)
      = l # StrSplit (join_lines (l' # ls)) (CHR 0x0A)"
    using "3.prems" by (intro StrSplit_line is_snafu_no_newline) simp
  then show ?case
    using 3 by simp
qed

lemma StrSplit_join_lines_newline:
  assumes "ns \<noteq> []" "list_all is_snafu ns"
  shows "StrSplit (join_lines ns @ [CHR 0x0A]) (CHR 0x0A) = ns @ [[]]"
  using StrSplit_append [of "join_lines ns" "CHR 0x0A" "[]"] StrSplit_join_lines [OF assms]
  by simp

lemma filter_numerals: "list_all is_snafu ns \<Longrightarrow> filter (\<lambda>piece. piece \<noteq> []) ns = ns"
  by (induction ns) (auto simp: is_snafu_def)

lemma snafuToDecimal_numeral:
  assumes "is_snafu p"
  shows "snafuToDecimal p = Some (wrap64 (snafu_value p))"
proof -
  have "map snafu_digit p = map Some (map snafu_digit_value p)"
    using assms by (intro is_snafu_digits) (simp add: is_snafu_def)
  then show ?thesis
    by (rule snafuToDecimal_value)
qed

lemma day25_sum_numerals:
  "list_all is_snafu ns \<Longrightarrow> in_int64 acc \<Longrightarrow>
     day25_sum ns acc = Some (wrap64 (acc + sum_list (map snafu_value ns)))"
proof (induction ns arbitrary: acc)
  case Nil
  then show ?case by (simp add: wrap64_id)
next
  case (Cons p ns)
  have p: "snafuToDecimal p = Some (wrap64 (snafu_value p))"
    using Cons.prems(1) by (intro snafuToDecimal_numeral) simp
  let ?acc = "wrap64 (acc + snafu_value p)"
  have "day25_sum ns ?acc = Some (wrap64 (?acc + sum_list (map snafu_value ns)))"
    using Cons.prems(1) by (intro Cons.IH wrap64_in_int64) simp
  also have "wrap64 (?acc + sum_list (map snafu_value ns))
      = wrap64 (acc + snafu_value p + sum_list (map snafu_value ns))"
    by (rule wrap64_add_left)
  finally show ?case
    using p by (simp add: add.assoc wrap64_add_right)
qed

text \<open>Two numerals that denote the same number other than zero are the same.\<close>

lemma snafu_digit_value_inj: "inj_on snafu_digit_value (set ''210-='')"
  by (simp add: inj_on_def snafu_digit_value_def)

lemma snafu_digit_value_range:
  "c \<in> set ''210-='' \<Longrightarrow> - 2 \<le> snafu_digit_value c \<and> snafu_digit_value c \<le> 2"
  by (auto simp: snafu_digit_value_def)

lemma snafu_digit_value_zero:
  "c \<in> set ''210-='' \<Longrightarrow> snafu_digit_value c = 0 \<longleftrightarrow> c = CHR ''0''"
  by (auto simp: snafu_digit_value_def)

lemma snafu_value_zero: "snafu_value ''0'' = 0"
  by (simp add: snafu_value_def snafu_digit_value_def)

lemma snafu_denotes_digits:
  assumes "snafu_denotes s n" "n \<noteq> 0"
  shows "list_all (\<lambda>d. - 2 \<le> d \<and> d \<le> 2) (rev (map snafu_digit_value s))"
    and "last (rev (map snafu_digit_value s)) \<noteq> 0"
    and "digits_val (rev (map snafu_digit_value s)) = n"
proof -
  have "s \<noteq> ''0''"
    using assms snafu_value_zero by (auto simp: snafu_denotes_def)
  then have s: "s \<noteq> []" "list_all (\<lambda>c. c \<in> set ''210-='') s" "hd s \<noteq> CHR ''0''"
      "snafu_value s = n"
    using assms(1) by (simp_all add: snafu_denotes_def is_snafu_def)
  have "\<And>c. c \<in> set s \<Longrightarrow> c \<in> set ''210-=''"
    using s(2) unfolding list_all_iff by blast
  then have "\<And>c. c \<in> set s \<Longrightarrow> - 2 \<le> snafu_digit_value c \<and> snafu_digit_value c \<le> 2"
    using snafu_digit_value_range by blast
  then show "list_all (\<lambda>d. - 2 \<le> d \<and> d \<le> 2) (rev (map snafu_digit_value s))"
    unfolding list_all_iff by auto
  have "hd s \<in> set ''210-=''"
    using s(1,2) unfolding list_all_iff by (metis hd_in_set)
  then have "snafu_digit_value (hd s) \<noteq> 0"
    using s(3) snafu_digit_value_zero by blast
  moreover have "last (rev (map snafu_digit_value s)) = snafu_digit_value (hd s)"
    using s(1) by (simp add: last_rev hd_map)
  ultimately show "last (rev (map snafu_digit_value s)) \<noteq> 0"
    by simp
  have "map snafu_digit s = map Some (map snafu_digit_value s)"
    using s(2) by (rule is_snafu_digits)
  then have "snafu_value s = digits_val (rev (map snafu_digit_value s))"
    by (rule snafu_value_digits [THEN conjunct1])
  then show "digits_val (rev (map snafu_digit_value s)) = n"
    using s(4) by simp
qed

lemma snafu_denotes_unique:
  assumes "snafu_denotes r n" "snafu_denotes r' n" "n \<noteq> 0"
  shows "r = r'"
proof -
  let ?xs = "rev (map snafu_digit_value r)"
  let ?ys = "rev (map snafu_digit_value r')"
  have "?xs = ?ys"
  proof (rule balanced_unique)
    show "list_all (\<lambda>d. - 2 \<le> d \<and> d \<le> 2) ?xs"
      using assms(1,3) by (rule snafu_denotes_digits(1))
    show "list_all (\<lambda>d. - 2 \<le> d \<and> d \<le> 2) ?ys"
      using assms(2,3) by (rule snafu_denotes_digits(1))
    show "?xs = [] \<or> last ?xs \<noteq> 0"
      using snafu_denotes_digits(2) [OF assms(1,3)] by (rule disjI2)
    show "?ys = [] \<or> last ?ys \<noteq> 0"
      using snafu_denotes_digits(2) [OF assms(2,3)] by (rule disjI2)
    show "digits_val ?xs = digits_val ?ys"
      using snafu_denotes_digits(3) [OF assms(1,3)] snafu_denotes_digits(3) [OF assms(2,3)] by simp
  qed
  then have eq: "map snafu_digit_value r = map snafu_digit_value r'"
    by simp
  have "set r \<subseteq> set ''210-=''" "set r' \<subseteq> set ''210-=''"
    using assms(1,2) unfolding snafu_denotes_def is_snafu_def list_all_iff by blast+
  then have "inj_on snafu_digit_value (set r \<union> set r')"
    using snafu_digit_value_inj by (meson Un_least inj_on_subset)
  then show ?thesis
    using eq by (rule map_inj_on [rotated])
qed

lemma day25_Part1_pieces:
  assumes "filter (\<lambda>piece. piece \<noteq> []) (StrSplit input (CHR 0x0A)) = ns"
    and "list_all is_snafu ns"
    and "0 < sum_list (map snafu_value ns)" "in_int64 (sum_list (map snafu_value ns))"
  shows "\<exists>r. day25_Part1 input = Answer r \<and> snafu_denotes r (sum_list (map snafu_value ns))"
proof -
  let ?t = "sum_list (map snafu_value ns)"
  have z: "in_int64 0"
    by (simp add: in_int64_def)
  have "day25_sum ns 0 = Some (wrap64 (0 + ?t))"
    using assms(2) z by (rule day25_sum_numerals)
  then have sum: "day25_sum ns 0 = Some ?t"
    using assms(4) by (simp add: wrap64_id)
  obtain r ds where r: "decimalToSnafu ?t = Some r" "map snafu_digit r = map Some ds"
      "digits_val (rev ds) = ?t" "r \<noteq> []" "hd r \<noteq> CHR ''0''"
    using decimalToSnafu_pos [OF assms(3)] by blast
  have "snafu_value r = ?t" "list_all (\<lambda>c. c \<in> set ''210-='') r"
    using snafu_value_digits [OF r(2)] r(3) by simp_all
  then have "snafu_denotes r ?t"
    using r(4,5) by (simp add: snafu_denotes_def is_snafu_def)
  moreover have "day25_Part1 input = Answer r"
    using assms(1) sum r(1) by (simp add: day25_Part1_def)
  ultimately show ?thesis
    by blast
qed

text \<open>
  C7, amended. For an input of one or more non-empty SNAFU numerals, a newline between
  two of them and a newline at the end or not, whose values add up to a strictly
  positive number that fits in an \<open>int64_t\<close>: \<open>Part1\<close> of day 25 returns the SNAFU numeral
  that denotes that sum, the only numeral without a leading \<open>0\<close> that has this value.
  (Sums that leave the \<open>int64_t\<close> range on the way wrap around and come back.)
\<close>

theorem day25_Part1_sum:
  assumes "ns \<noteq> []" "list_all is_snafu ns"
    and "0 < sum_list (map snafu_value ns)" "in_int64 (sum_list (map snafu_value ns))"
  shows "\<exists>r. day25_Part1 (join_lines ns) = Answer r \<and>
    day25_Part1 (join_lines ns @ [CHR 0x0A]) = Answer r \<and>
    snafu_denotes r (sum_list (map snafu_value ns)) \<and>
    (\<forall>r'. snafu_denotes r' (sum_list (map snafu_value ns)) \<longrightarrow> r' = r)"
proof -
  let ?t = "sum_list (map snafu_value ns)"
  have 1: "filter (\<lambda>piece. piece \<noteq> []) (StrSplit (join_lines ns) (CHR 0x0A)) = ns"
    using assms(1,2) by (simp add: StrSplit_join_lines filter_numerals)
  have 2: "filter (\<lambda>piece. piece \<noteq> []) (StrSplit (join_lines ns @ [CHR 0x0A]) (CHR 0x0A)) = ns"
    using assms(1,2) by (simp add: StrSplit_join_lines_newline filter_numerals)
  obtain r where r: "day25_Part1 (join_lines ns) = Answer r" "snafu_denotes r ?t"
    using day25_Part1_pieces [OF 1 assms(2,3,4)] by blast
  have same: "day25_Part1 (join_lines ns @ [CHR 0x0A]) = day25_Part1 (join_lines ns)"
    by (simp only: day25_Part1_def 1 2)
  have ne: "?t \<noteq> 0"
    using assms(3) by simp
  have uniq: "\<forall>r'. snafu_denotes r' ?t \<longrightarrow> r' = r"
  proof (intro allI impI)
    fix r' assume "snafu_denotes r' ?t"
    then show "r' = r"
      using r(2) ne by (rule snafu_denotes_unique)
  qed
  show ?thesis
  proof (intro exI conjI)
    show "day25_Part1 (join_lines ns) = Answer r"
      by (rule r(1))
    show "day25_Part1 (join_lines ns @ [CHR 0x0A]) = Answer r"
      by (simp only: same r(1))
    show "snafu_denotes r ?t"
      by (rule r(2))
    show "\<forall>r'. snafu_denotes r' ?t \<longrightarrow> r' = r"
      by (rule uniq)
  qed
qed

theorem day25_Part1_sum_witness:
  "day25_Part1 ''1=-0-2\<newline>12111\<newline>2=0=\<newline>21\<newline>2=01\<newline>111\<newline>20012\<newline>112\<newline>1=-1=\<newline>1-12\<newline>12\<newline>1=\<newline>122'' = Answer ''2=-1=0''"
proof -
  have ne: "example_numerals \<noteq> []"
    by (simp add: example_numerals_def)
  have ok: "list_all is_snafu example_numerals"
    by code_simp
  have t: "sum_list (map snafu_value example_numerals) = 4890"
    by code_simp
  have pos: "0 < sum_list (map snafu_value example_numerals)"
    unfolding t by simp
  have fits: "in_int64 (sum_list (map snafu_value example_numerals))"
    unfolding t by (simp add: in_int64_def)
  have inp: "join_lines example_numerals = ''1=-0-2\<newline>12111\<newline>2=0=\<newline>21\<newline>2=01\<newline>111\<newline>20012\<newline>112\<newline>1=-1=\<newline>1-12\<newline>12\<newline>1=\<newline>122''"
    by code_simp
  have d: "snafu_denotes ''2=-1=0'' 4890"
    by code_simp
  from day25_Part1_sum [OF ne ok pos fits]
  obtain r where r: "day25_Part1 (join_lines example_numerals) = Answer r"
      "\<forall>r'. snafu_denotes r' (sum_list (map snafu_value example_numerals)) \<longrightarrow> r' = r"
    by (elim exE conjE)
  have "''2=-1=0'' = r"
    by (rule r(2) [unfolded t, rule_format, OF d])
  then show ?thesis
    using r(1) unfolding inp by simp
qed

text \<open>
  C7 as stated fails when the sum is not positive. The numerals \<open>=\<close> and \<open>-\<close> add up to
  \<open>-3\<close>, which the numeral \<open>-2\<close> denotes; \<open>decimalToSnafu\<close> gets the digit \<open>-3\<close> from the
  truncating remainder and reads the character it never assigned. The numerals \<open>1\<close> and
  \<open>-\<close> add up to \<open>0\<close>, which the numeral \<open>0\<close> denotes, and \<open>Part1\<close> returns the empty
  string, which is no numeral. It fails also when the sum does not fit in \<open>int64_t\<close>: twice
  the numeral \<open>1\<close> followed by 27 zeros adds up to \<open>2 * 5 ^ 27\<close>, which the numeral \<open>2\<close>
  followed by 27 zeros denotes; the wrapped sum is negative.
\<close>

theorem day25_Part1_sum_counterexample:
  "list_all is_snafu [''='', ''-'']
   \<and> join_lines [''='', ''-''] = ''=\<newline>-''
   \<and> sum_list (map snafu_value [''='', ''-'']) = - 3
   \<and> snafu_denotes ''-2'' (- 3)
   \<and> day25_Part1 ''=\<newline>-'' = Undefined
   \<and> list_all is_snafu [''1'', ''-'']
   \<and> join_lines [''1'', ''-''] = ''1\<newline>-''
   \<and> sum_list (map snafu_value [''1'', ''-'']) = 0
   \<and> snafu_denotes ''0'' 0
   \<and> day25_Part1 ''1\<newline>-'' = Answer []
   \<and> \<not> is_snafu []
   \<and> is_snafu ''1000000000000000000000000000''
   \<and> snafu_value ''1000000000000000000000000000'' = 5 ^ 27
   \<and> \<not> in_int64 (sum_list (map snafu_value [''1000000000000000000000000000'', ''1000000000000000000000000000'']))
   \<and> snafu_denotes ''2000000000000000000000000000'' (sum_list (map snafu_value [''1000000000000000000000000000'', ''1000000000000000000000000000'']))
   \<and> day25_Part1 (join_lines [''1000000000000000000000000000'', ''1000000000000000000000000000'']) = Undefined"
  by code_simp

section \<open>Verification: which inputs the solvers return on\<close>

text \<open>Day 1: the number of sums is the number of empty lines.\<close>

lemma calories_loop_length:
  "calories_loop lines acc sums = Inr r \<Longrightarrow>
     length r = length sums + length (filter (\<lambda>l. l = []) lines)"
  by (induction lines acc sums arbitrary: r rule: calories_loop.induct)
    (auto split: option.splits if_splits)

lemma day01_Part1_returns:
  assumes "[] \<in> set (StrSplit input (CHR 0x0A))"
  shows "is_result (day01_Part1 input)"
proof (cases "calories input")
  case (Inl e)
  then show ?thesis by (simp add: day01_Part1_def)
next
  case (Inr r)
  have "filter (\<lambda>l. l = []) (StrSplit input (CHR 0x0A)) \<noteq> []"
    using assms by (simp add: filter_empty_conv)
  then have "r \<noteq> []"
    using calories_loop_length [of "StrSplit input (CHR 0x0A)" 0 "[]" r] Inr
    by (auto simp: calories_def)
  then have "max_element r < length r"
    by (rule max_element_Max)
  then show ?thesis
    using Inr by (simp add: day01_Part1_def Let_def)
qed

lemma newline_terminated_empty_line:
  assumes "input \<noteq> []" "last input = CHR 0x0A"
  shows "[] \<in> set (StrSplit input (CHR 0x0A))"
proof -
  have "last (StrSplit input (CHR 0x0A)) = []"
    using assms by (rule StrSplit_last_empty)
  then show ?thesis
    using StrSplit_not_Nil [of input "CHR 0x0A"] last_in_set by metis
qed

lemma day01_Part2_returns:
  assumes "3 \<le> length (filter (\<lambda>l. l = []) (StrSplit input (CHR 0x0A)))"
  shows "is_result (day01_Part2 input)"
proof (cases "calories input")
  case (Inl e)
  then show ?thesis by (simp add: day01_Part2_def)
next
  case (Inr r)
  have "3 \<le> length r"
    using calories_loop_length [of "StrSplit input (CHR 0x0A)" 0 "[]" r] Inr assms
    by (auto simp: calories_def)
  then show ?thesis
    using Inr by (simp add: day01_Part2_def Let_def)
qed

lemma has_unparsable_line_iff:
  "has_unparsable_line input \<longleftrightarrow> (\<exists>e. calories input = Inl e)"
  using calories_loop_error [of "StrSplit input (CHR 0x0A)" 0 "[]"]
  by (simp add: has_unparsable_line_def calories_def list_ex_iff)

lemma is_answer_iff: "is_answer r \<longleftrightarrow> is_result r \<and> \<not> is_error r"
  by (cases r) simp_all

text \<open>
  C6, amended. For every input that ends in a newline: \<open>Part1\<close> of day 1 returns an
  invalid-argument error if some non-empty line of the input cannot be parsed as an
  integer that fits in an \<open>int\<close>, and an answer otherwise; \<open>Part2\<close> returns an
  invalid-argument error if there is such a line, and an answer otherwise provided the
  input has three empty lines or more (three groups, each closed by an empty line). So
  \<open>Part1\<close> returns an error exactly when there is such a line, and so does \<open>Part2\<close> on
  the inputs with three groups or more.
\<close>

theorem day01_error_or_answer:
  assumes "input \<noteq> []" "last input = CHR 0x0A"
  shows "(has_unparsable_line input \<longrightarrow>
            is_invalid_argument (day01_Part1 input) \<and> is_invalid_argument (day01_Part2 input))
    \<and> (\<not> has_unparsable_line input \<longrightarrow> is_answer (day01_Part1 input))
    \<and> (\<not> has_unparsable_line input \<and> 3 \<le> empty_lines input \<longrightarrow>
            is_answer (day01_Part2 input))
    \<and> (is_error (day01_Part1 input) \<longleftrightarrow> has_unparsable_line input)
    \<and> (3 \<le> empty_lines input \<longrightarrow>
            (is_error (day01_Part2 input) \<longleftrightarrow> has_unparsable_line input))"
proof -
  have e1: "is_error (day01_Part1 input) \<longleftrightarrow> has_unparsable_line input"
    by (simp add: day01_Part1_error has_unparsable_line_iff)
  have e2: "is_error (day01_Part2 input) \<longleftrightarrow> has_unparsable_line input"
    by (simp add: day01_Part2_error has_unparsable_line_iff)
  have r1: "is_result (day01_Part1 input)"
    using assms by (intro day01_Part1_returns newline_terminated_empty_line)
  have r2: "is_result (day01_Part2 input)" if "3 \<le> empty_lines input"
    using that unfolding empty_lines_def by (rule day01_Part2_returns)
  have bad: "is_invalid_argument (day01_Part1 input) \<and> is_invalid_argument (day01_Part2 input)"
    if "has_unparsable_line input"
    using that e1 e2 day01_Part1_invalid [of input] day01_Part2_invalid [of input] by simp
  have a1: "is_answer (day01_Part1 input)" if "\<not> has_unparsable_line input"
    using that e1 r1 by (simp add: is_answer_iff)
  have a2: "is_answer (day01_Part2 input)"
    if "\<not> has_unparsable_line input \<and> 3 \<le> empty_lines input"
    using that e2 r2 by (simp add: is_answer_iff)
  show ?thesis
    using bad a1 a2 e1 e2 by blast
qed

theorem day01_error_or_answer_witness:
  "is_invalid_argument (day01_Part1 ''12\<newline>4x\<newline>\<newline>7\<newline>'')
   \<and> is_invalid_argument (day01_Part2 ''12\<newline>4x\<newline>\<newline>7\<newline>'')
   \<and> is_answer (day01_Part1 ''1\<newline>\<newline>2\<newline>\<newline>3\<newline>'')
   \<and> is_answer (day01_Part2 ''1\<newline>\<newline>2\<newline>\<newline>3\<newline>'')"
proof -
  have b: "''12\<newline>4x\<newline>\<newline>7\<newline>'' \<noteq> []" "last ''12\<newline>4x\<newline>\<newline>7\<newline>'' = CHR 0x0A"
    by simp_all
  have g: "''1\<newline>\<newline>2\<newline>\<newline>3\<newline>'' \<noteq> []" "last ''1\<newline>\<newline>2\<newline>\<newline>3\<newline>'' = CHR 0x0A"
    by simp_all
  have bad: "has_unparsable_line ''12\<newline>4x\<newline>\<newline>7\<newline>''"
    by code_simp
  have good: "\<not> has_unparsable_line ''1\<newline>\<newline>2\<newline>\<newline>3\<newline>''"
    by code_simp
  have three: "3 \<le> empty_lines ''1\<newline>\<newline>2\<newline>\<newline>3\<newline>''"
    by code_simp
  note t1 = day01_error_or_answer [OF b, THEN conjunct1, THEN mp, OF bad]
  note t2 = day01_error_or_answer [OF g, THEN conjunct2, THEN conjunct1, THEN mp, OF good]
  note t3 = day01_error_or_answer [OF g, THEN conjunct2, THEN conjunct2, THEN conjunct1,
    THEN mp, OF conjI, OF good three]
  from t1 t2 t3 show ?thesis
    by (intro conjI) (erule conjunct1 conjunct2 | assumption)+
qed

text \<open>
  C6 as stated fails for \<open>Part2\<close>: on an input that ends in a newline, has no unparsable
  line and has one or two groups, \<open>Part2\<close> returns neither an error nor an answer; it
  reads the three first sums of a vector that holds fewer.
\<close>

theorem day01_error_or_answer_counterexample:
  "last ''12\<newline>40\<newline>\<newline>7\<newline>'' = CHR 0x0A
   \<and> \<not> has_unparsable_line ''12\<newline>40\<newline>\<newline>7\<newline>''
   \<and> empty_lines ''12\<newline>40\<newline>\<newline>7\<newline>'' = 2
   \<and> day01_Part1 ''12\<newline>40\<newline>\<newline>7\<newline>'' = Answer ''52''
   \<and> day01_Part2 ''12\<newline>40\<newline>\<newline>7\<newline>'' = Undefined"
  by code_simp

text \<open>Day 2: a line of three characters or more is parsed or rejected.\<close>

lemma Round_Parse_returns: "3 \<le> length line \<Longrightarrow> Round_Parse line part2 \<noteq> Undefined"
  by (auto simp: Round_Parse_def at_def split: option.splits)

lemma day02_loop_returns:
  "list_all (\<lambda>l. l = [] \<or> 3 \<le> length l) lines \<Longrightarrow> is_result (day02_loop lines part2 score)"
proof (induction lines arbitrary: score)
  case Nil
  then show ?case by simp
next
  case (Cons line lines)
  show ?case
  proof (cases "line = []")
    case True
    then show ?thesis by simp
  next
    case False
    then have "Round_Parse line part2 \<noteq> Undefined"
      using Cons.prems by (intro Round_Parse_returns) simp
    then show ?thesis
      using False Cons by (cases "Round_Parse line part2") simp_all
  qed
qed

text \<open>Day 6: \<open>Push\<close> of a lowercase letter keeps the buffer well formed.\<close>

lemma letter_index_lower:
  assumes "is_lower c"
  shows "letter_index c = of_char c - 97" "0 \<le> letter_index c" "letter_index c < 26"
proof -
  have r: "0 \<le> (of_char c :: int) - 97" "(of_char c :: int) - 97 < 26"
    using assms by (simp_all add: is_lower_def)
  then have "((of_char c :: int) - 97) mod 18446744073709551616 = of_char c - 97"
    by (intro mod_pos_pos_trivial) simp_all
  then show "letter_index c = of_char c - 97"
    by (simp add: letter_index_def)
  then show "0 \<le> letter_index c" "letter_index c < 26"
    using r by simp_all
qed

lemma added_lower:
  assumes "is_lower c" "length (seen b) = 26"
  shows "\<exists>b'. added b c = Some b' \<and> buf b' = buf b \<and> buf_start b' = buf_start b \<and>
    capacity b' = capacity b \<and> cur_size b' = cur_size b \<and> length (seen b') = 26"
  using letter_index_lower(3) [OF assms(1)] assms(2) by (simp add: added_def Let_def)

lemma dropped_lower:
  assumes "is_lower c" "length (seen b) = 26"
  shows "\<exists>b'. dropped b c = Some b' \<and> buf b' = buf b \<and> buf_start b' = buf_start b \<and>
    capacity b' = capacity b \<and> cur_size b' = cur_size b \<and> length (seen b') = 26"
  using letter_index_lower(3) [OF assms(1)] assms(2) by (simp add: dropped_def Let_def)

lemma list_all_take_update:
  assumes "list_all P (take n xs)" "P v"
  shows "list_all P (take n (xs[i := v]))"
proof -
  have "set (take n (xs[i := v])) \<subseteq> insert v (set (take n xs))"
    by (simp add: take_update_swap set_update_subset_insert)
  then show ?thesis
    using assms by (auto simp: list_all_iff)
qed


lemma Push_ok:
  assumes "buffer_ok cap b" "is_lower c"
  shows "\<exists>b'. Push b c = Some b' \<and> buffer_ok cap b'"
proof -
  have inv: "length (buf b) = 14" "length (seen b) = 26" "capacity b = cap" "0 < cap"
      "cap \<le> 14" "cur_size b \<le> cap"
      "if cur_size b = 0 then buf_start b = 0 else buf_start b < cur_size b"
      "list_all is_lower (take (cur_size b) (buf b))"
    using assms(1) by (simp_all add: buffer_ok_def)
  show ?thesis
  proof (cases "cur_size b < capacity b")
    case True
    let ?b = "b\<lparr>buf := (buf b)[cur_size b := c], cur_size := cur_size b + 1\<rparr>"
    have in_buf: "cur_size b < length (buf b)"
      using True inv by simp
    obtain b' where b': "added ?b c = Some b'" "buf b' = buf ?b" "buf_start b' = buf_start ?b"
        "capacity b' = capacity ?b" "cur_size b' = cur_size ?b" "length (seen b') = 26"
      using added_lower [OF assms(2), of ?b] inv(2) by auto
    have push: "Push b c = Some b'"
      using True in_buf b'(1) by (simp add: Push_def)
    have start: "buf_start b < cur_size b + 1"
      using inv(7) by (cases "cur_size b = 0") simp_all
    have "take (cur_size b + 1) ((buf b)[cur_size b := c]) = take (cur_size b) (buf b) @ [c]"
      using in_buf by (simp add: take_Suc_conv_app_nth)
    then have lower: "list_all is_lower (take (cur_size b + 1) ((buf b)[cur_size b := c]))"
      using inv(8) assms(2) by simp
    have "buffer_ok cap b'"
      unfolding buffer_ok_def b'(2-6) using inv True start lower by simp
    then show ?thesis
      using push by blast
  next
    case False
    then have full: "cur_size b = cap"
      using inv(3,6) by simp
    then have pos: "0 < cur_size b"
      using inv(4) by simp
    then have st: "buf_start b < cur_size b"
      using inv(7) by simp
    let ?start = "if buf_start b + 1 = cur_size b then 0 else buf_start b + 1"
    let ?b0 = "b\<lparr>buf_start := ?start\<rparr>"
    have in_buf: "buf_start b < length (buf b)"
      using st full inv(1,5) by simp
    have "take (cur_size b) (buf b) ! buf_start b = buf b ! buf_start b"
      using st by simp
    then have old: "is_lower (buf b ! buf_start b)"
      using inv(8) st in_buf by (metis length_take list_all_length min_less_iff_conj)
    obtain b1 where b1: "dropped ?b0 (buf b ! buf_start b) = Some b1" "buf b1 = buf ?b0"
        "buf_start b1 = buf_start ?b0" "capacity b1 = capacity ?b0" "cur_size b1 = cur_size ?b0"
        "length (seen b1) = 26"
      using dropped_lower [OF old, of ?b0] inv(2) by auto
    let ?b2 = "b1\<lparr>buf := (buf b1)[buf_start b := c]\<rparr>"
    obtain b' where b': "added ?b2 c = Some b'" "buf b' = buf ?b2" "buf_start b' = buf_start ?b2"
        "capacity b' = capacity ?b2" "cur_size b' = cur_size ?b2" "length (seen b') = 26"
      using added_lower [OF assms(2), of ?b2] b1(6) by auto
    have push: "Push b c = Some b'"
      using False in_buf b1(1) b'(1) by (simp add: Push_def Let_def)
    have start: "?start < cur_size b"
      using st pos by simp
    have lower: "list_all is_lower (take (cur_size b) ((buf b)[buf_start b := c]))"
      using inv(8) assms(2) by (rule list_all_take_update)
    have "buffer_ok cap b'"
      unfolding buffer_ok_def b'(2-6) using inv full pos start lower b1(2-5) by simp
    then show ?thesis
      using push by blast
  qed
qed

lemma day06_loop_returns:
  "buffer_ok cap b \<Longrightarrow> list_all is_lower cs \<Longrightarrow> is_result (day06_loop cs i cap b)"
proof (induction cs arbitrary: i b)
  case Nil
  then show ?case by simp
next
  case (Cons c cs)
  obtain b' where b': "Push b c = Some b'" "buffer_ok cap b'"
    using Push_ok [OF Cons.prems(1), of c] Cons.prems(2) by auto
  have "is_result (day06_loop cs (i + 1) cap b')"
    using b'(2) Cons.prems(2) by (intro Cons.IH) simp_all
  then show ?case
    using b'(1) by simp
qed

lemma Buffer_init_ok: "0 < cap \<Longrightarrow> cap \<le> 14 \<Longrightarrow> buffer_ok cap (Buffer_init cap)"
  by (simp add: buffer_ok_def Buffer_init_def)

lemma day06_solve_returns:
  assumes "input \<noteq> []"
    and "list_all is_lower (if last input = CHR 0x0A then butlast input else input)"
  shows "is_result (day06_solve input part1)"
proof -
  let ?cap = "if part1 then 4 else 14 :: nat"
  let ?cropped = "if last input = CHR 0x0A then butlast input else input"
  have crop: "(if last input = CHR 0x0A then substr input 0 (length input - 1) else Some input)
      = Some ?cropped"
    by (simp add: substr_def butlast_conv_take)
  have "buffer_ok ?cap (Buffer_init ?cap)"
    by (rule Buffer_init_ok) simp_all
  then have "is_result (day06_loop ?cropped 0 ?cap (Buffer_init ?cap))"
    using assms(2) by (rule day06_loop_returns)
  then show ?thesis
    using assms(1) unfolding day06_solve_def crop by (simp add: Let_def)
qed

lemma decimalToSnafu_zero: "decimalToSnafu 0 = Some []"
  by code_simp

lemma day25_Part1_returns:
  assumes "list_all is_snafu (filter (\<lambda>piece. piece \<noteq> []) (StrSplit input (CHR 0x0A)))"
    and "0 \<le> sum_list (map snafu_value (filter (\<lambda>piece. piece \<noteq> []) (StrSplit input (CHR 0x0A))))"
    and "in_int64 (sum_list (map snafu_value (filter (\<lambda>piece. piece \<noteq> []) (StrSplit input (CHR 0x0A)))))"
  shows "is_result (day25_Part1 input)"
proof -
  let ?ns = "filter (\<lambda>piece. piece \<noteq> []) (StrSplit input (CHR 0x0A))"
  let ?t = "sum_list (map snafu_value ?ns)"
  show ?thesis
  proof (cases "?t = 0")
    case True
    have z: "in_int64 0"
      by (simp add: in_int64_def)
    have "day25_sum ?ns 0 = Some (wrap64 (0 + ?t))"
      using assms(1) z by (rule day25_sum_numerals)
    then have "day25_sum ?ns 0 = Some 0"
      using True z by (simp add: wrap64_id)
    then show ?thesis
      by (simp add: day25_Part1_def decimalToSnafu_zero)
  next
    case False
    then have pos: "0 < ?t"
      using assms(2) by simp
    obtain r where "day25_Part1 input = Answer r"
      using day25_Part1_pieces [OF refl assms(1) pos assms(3)] by blast
    then show ?thesis
      by simp
  qed
qed

text \<open>
  Inputs on which the solvers of days 1, 2, 6 and 25 return. \<open>Part1\<close> of day 1
  returns an answer or an error on every input that ends in a newline, and \<open>Part2\<close> on
  every input with three empty lines or more (three groups closed by an empty line);
  both parts of day 2 on every input whose non-empty lines have three characters or
  more; both parts of day 6 on every non-empty input of lowercase letters, with a
  newline at the end or not; \<open>Part1\<close> of day 25 on every input whose non-empty lines are
  SNAFU numerals with a sum that is not negative and fits in an \<open>int64_t\<close>.
\<close>

theorem solvers_return_on_well_formed_input:
  "(input \<noteq> [] \<and> last input = CHR 0x0A \<longrightarrow> is_result (day01_Part1 input))
   \<and> (3 \<le> length (filter (\<lambda>l. l = []) (StrSplit input (CHR 0x0A))) \<longrightarrow>
        is_result (day01_Part2 input))
   \<and> (list_all (\<lambda>l. l = [] \<or> 3 \<le> length l) (StrSplit input (CHR 0x0A)) \<longrightarrow>
        is_result (day02_Part1 input) \<and> is_result (day02_Part2 input))
   \<and> (input \<noteq> [] \<and>
        list_all is_lower (if last input = CHR 0x0A then butlast input else input) \<longrightarrow>
        is_result (day06_Part1 input) \<and> is_result (day06_Part2 input))
   \<and> (list_all is_snafu (filter (\<lambda>piece. piece \<noteq> []) (StrSplit input (CHR 0x0A))) \<and>
        0 \<le> sum_list (map snafu_value
               (filter (\<lambda>piece. piece \<noteq> []) (StrSplit input (CHR 0x0A)))) \<and>
        in_int64 (sum_list (map snafu_value
               (filter (\<lambda>piece. piece \<noteq> []) (StrSplit input (CHR 0x0A))))) \<longrightarrow>
        is_result (day25_Part1 input))"
proof (intro conjI impI)
  assume "input \<noteq> [] \<and> last input = CHR 0x0A"
  then have "[] \<in> set (StrSplit input (CHR 0x0A))"
    by (intro newline_terminated_empty_line) simp_all
  then show "is_result (day01_Part1 input)"
    by (rule day01_Part1_returns)
next
  assume "3 \<le> length (filter (\<lambda>l. l = []) (StrSplit input (CHR 0x0A)))"
  then show "is_result (day01_Part2 input)"
    by (rule day01_Part2_returns)
next
  assume a: "list_all (\<lambda>l. l = [] \<or> 3 \<le> length l) (StrSplit input (CHR 0x0A))"
  show "is_result (day02_Part1 input)"
    unfolding day02_Part1_def day02_solve_def using a by (rule day02_loop_returns)
  show "is_result (day02_Part2 input)"
    unfolding day02_Part2_def day02_solve_def using a by (rule day02_loop_returns)
next
  assume a: "input \<noteq> [] \<and>
    list_all is_lower (if last input = CHR 0x0A then butlast input else input)"
  show "is_result (day06_Part1 input)"
    unfolding day06_Part1_def using a by (intro day06_solve_returns) simp_all
  show "is_result (day06_Part2 input)"
    unfolding day06_Part2_def using a by (intro day06_solve_returns) simp_all
next
  assume "list_all is_snafu (filter (\<lambda>piece. piece \<noteq> []) (StrSplit input (CHR 0x0A))) \<and>
        0 \<le> sum_list (map snafu_value
               (filter (\<lambda>piece. piece \<noteq> []) (StrSplit input (CHR 0x0A)))) \<and>
        in_int64 (sum_list (map snafu_value
               (filter (\<lambda>piece. piece \<noteq> []) (StrSplit input (CHR 0x0A)))))"
  then show "is_result (day25_Part1 input)"
    by (intro day25_Part1_returns) simp_all
qed

theorem solvers_return_on_well_formed_input_witness:
  "is_result (day01_Part1 ''12\<newline>x\<newline>'')
   \<and> is_result (day01_Part2 ''1\<newline>\<newline>2\<newline>\<newline>3\<newline>'')
   \<and> is_result (day02_Part1 ''A Y\<newline>B X\<newline>C Z\<newline>'')
   \<and> is_result (day02_Part2 ''A Y\<newline>B X\<newline>C Z\<newline>'')
   \<and> is_result (day06_Part1 ''abcab\<newline>'')
   \<and> is_result (day06_Part2 ''abcab\<newline>'')
   \<and> is_result (day25_Part1 ''1=\<newline>2-\<newline>'')"
proof -
  have 1: "''12\<newline>x\<newline>'' \<noteq> [] \<and> last ''12\<newline>x\<newline>'' = CHR 0x0A"
    by simp
  have 2: "3 \<le> length (filter (\<lambda>l. l = []) (StrSplit ''1\<newline>\<newline>2\<newline>\<newline>3\<newline>'' (CHR 0x0A)))"
    by code_simp
  have 3: "list_all (\<lambda>l. l = [] \<or> 3 \<le> length l) (StrSplit ''A Y\<newline>B X\<newline>C Z\<newline>'' (CHR 0x0A))"
    by code_simp
  have 4: "''abcab\<newline>'' \<noteq> [] \<and>
      list_all is_lower (if last ''abcab\<newline>'' = CHR 0x0A then butlast ''abcab\<newline>'' else ''abcab\<newline>'')"
    by code_simp
  have 5: "list_all is_snafu (filter (\<lambda>piece. piece \<noteq> []) (StrSplit ''1=\<newline>2-\<newline>'' (CHR 0x0A))) \<and>
      0 \<le> sum_list (map snafu_value (filter (\<lambda>piece. piece \<noteq> []) (StrSplit ''1=\<newline>2-\<newline>'' (CHR 0x0A)))) \<and>
      in_int64 (sum_list (map snafu_value (filter (\<lambda>piece. piece \<noteq> []) (StrSplit ''1=\<newline>2-\<newline>'' (CHR 0x0A)))))"
    by code_simp
  note r1 = solvers_return_on_well_formed_input
    [of "''12\<newline>x\<newline>''", THEN conjunct1, THEN mp, OF 1]
  note r2 = solvers_return_on_well_formed_input
    [of "''1\<newline>\<newline>2\<newline>\<newline>3\<newline>''", THEN conjunct2, THEN conjunct1, THEN mp, OF 2]
  note r3 = solvers_return_on_well_formed_input
    [of "''A Y\<newline>B X\<newline>C Z\<newline>''", THEN conjunct2, THEN conjunct2, THEN conjunct1,
      THEN mp, OF 3]
  note r4 = solvers_return_on_well_formed_input
    [of "''abcab\<newline>''", THEN conjunct2, THEN conjunct2, THEN conjunct2, THEN conjunct1,
      THEN mp, OF 4]
  note r5 = solvers_return_on_well_formed_input
    [of "''1=\<newline>2-\<newline>''", THEN conjunct2, THEN conjunct2, THEN conjunct2, THEN conjunct2,
      THEN mp, OF 5]
  from r1 r2 r3 r4 r5 show ?thesis
    by (intro conjI) (erule conjunct1 conjunct2 | assumption)+
qed

text \<open>
  The solvers of these four days do not check the shape of their input. Day 6 reads the
  last character of the empty input and indexes its counters with a character that is
  no lowercase letter; day 2 reads \<open>line[2]\<close> of a line of one character; \<open>Part1\<close> of
  day 1 dereferences the end iterator when no line is empty, and \<open>Part2\<close> reads three
  sums where there is one; day 25 reads a digit value no case assigned.
\<close>

theorem solvers_undefined_on_malformed_input:
  "day06_Part1 [] = Undefined
   \<and> day06_Part2 [] = Undefined
   \<and> day06_Part1 ''aB'' = Undefined
   \<and> day02_Part1 ''A\<newline>'' = Undefined
   \<and> day02_Part2 ''A\<newline>'' = Undefined
   \<and> day01_Part1 ''1'' = Undefined
   \<and> day01_Part2 ''1\<newline>'' = Undefined
   \<and> day25_Part1 ''x'' = Undefined"
  by code_simp

text \<open>
  C3, the code at inputs that start with four different letters. The run \<open>abcd\<close> is
  complete at position 4; \<open>solve\<close> asks for \<open>i >= capacity\<close> with the zero-based \<open>i\<close>
  and so looks at no position before 5: it finds nothing in \<open>abcd\<close>, and in \<open>abcde\<close> it
  returns 5, the end of the second run.
\<close>

theorem day06_Part1_first_marker_off_by_one:
  "day06_Part1 ''abcd'' = Failure (InternalError ''no answer found'')
   \<and> day06_Part1 ''abcd\<newline>'' = Failure (InternalError ''no answer found'')
   \<and> day06_Part1 ''abcde'' = Answer ''5''
   \<and> day06_Part1 ''aabcd'' = Answer ''5''"
  by code_simp

section \<open>Verification: year2022/day06.cc\<close>

lemma letter_index_inj:
  assumes "is_lower c" "is_lower d" "letter_index c = letter_index d"
  shows "c = d"
proof -
  have "(of_char c :: int) - 97 = of_char d - 97"
    using assms letter_index_lower(1) by metis
  then have "(of_char c :: int) = of_char d"
    by simp
  then show ?thesis
    by simp
qed

lemma added_counts:
  assumes "counts_ok w b" "is_lower c"
  shows "\<exists>b'. added b c = Some b' \<and> counts_ok (w @ [c]) b' \<and> buf b' = buf b \<and>
    buf_start b' = buf_start b \<and> capacity b' = capacity b \<and> cur_size b' = cur_size b"
proof -
  let ?idx = "letter_index c"
  let ?n = "seen b ! nat ?idx + 1"
  let ?sn = "(seen b)[nat ?idx := ?n]"
  let ?df = "if ?n = 1 then different b + 1 else different b"
  let ?b = "b\<lparr>seen := ?sn, different := ?df\<rparr>"
  have len: "length (seen b) = 26"
    and cnt: "\<And>d. is_lower d \<Longrightarrow> seen b ! nat (letter_index d) = int (count_list w d)"
    and df: "different b = int (card (set w))"
    using assms(1) by (simp_all add: counts_ok_def)
  have idx: "0 \<le> ?idx" "?idx < 26"
    using letter_index_lower [OF assms(2)] by simp_all
  then have in_range: "nat ?idx < length (seen b)"
    using len by simp
  have add: "added b c = Some ?b"
    using idx len by (simp add: added_def Let_def)
  have n: "?n = int (count_list w c) + 1"
    using cnt [OF assms(2)] by simp
  have seen': "?sn ! nat (letter_index d) = int (count_list (w @ [c]) d)" if "is_lower d" for d
  proof (cases "d = c")
    case True
    then show ?thesis
      using in_range n by simp
  next
    case False
    then have "letter_index d \<noteq> ?idx"
      using letter_index_inj [OF that assms(2)] by blast
    moreover have "0 \<le> letter_index d"
      using letter_index_lower(2) [OF that] .
    ultimately have "nat (letter_index d) \<noteq> nat ?idx"
      using idx(1) by simp
    then show ?thesis
      using False cnt [OF that] by simp
  qed
  have "?n = 1 \<longleftrightarrow> c \<notin> set w"
    unfolding n by (simp add: count_list_0_iff)
  then have df': "?df = int (card (set (w @ [c])))"
    using df by (auto simp: insert_absorb)
  have "counts_ok (w @ [c]) ?b"
    unfolding counts_ok_def using len seen' df' by simp
  then show ?thesis
    using add by simp
qed

lemma dropped_counts:
  assumes "counts_ok (d # w) b" "is_lower d"
  shows "\<exists>b'. dropped b d = Some b' \<and> counts_ok w b' \<and> buf b' = buf b \<and>
    buf_start b' = buf_start b \<and> capacity b' = capacity b \<and> cur_size b' = cur_size b"
proof -
  let ?idx = "letter_index d"
  let ?n = "seen b ! nat ?idx - 1"
  let ?sn = "(seen b)[nat ?idx := ?n]"
  let ?df = "if ?n = 0 then different b - 1 else different b"
  let ?b = "b\<lparr>seen := ?sn, different := ?df\<rparr>"
  have len: "length (seen b) = 26"
    and cnt: "\<And>c. is_lower c \<Longrightarrow> seen b ! nat (letter_index c) = int (count_list (d # w) c)"
    and df: "different b = int (card (set (d # w)))"
    using assms(1) by (simp_all add: counts_ok_def)
  have idx: "0 \<le> ?idx" "?idx < 26"
    using letter_index_lower [OF assms(2)] by simp_all
  then have in_range: "nat ?idx < length (seen b)"
    using len by simp
  have drop: "dropped b d = Some ?b"
    using idx len by (simp add: dropped_def Let_def)
  have n: "?n = int (count_list w d)"
    using cnt [OF assms(2)] by simp
  have seen': "?sn ! nat (letter_index c) = int (count_list w c)" if "is_lower c" for c
  proof (cases "c = d")
    case True
    then show ?thesis
      using in_range n by simp
  next
    case False
    then have "letter_index c \<noteq> ?idx"
      using letter_index_inj [OF that assms(2)] by blast
    moreover have "0 \<le> letter_index c"
      using letter_index_lower(2) [OF that] .
    ultimately have "nat (letter_index c) \<noteq> nat ?idx"
      using idx(1) by simp
    then show ?thesis
      using False cnt [OF that] by simp
  qed
  have "?n = 0 \<longleftrightarrow> d \<notin> set w"
    unfolding n by (simp add: count_list_0_iff)
  then have df': "?df = int (card (set w))"
    using df by (auto simp: insert_absorb)
  have "counts_ok w ?b"
    unfolding counts_ok_def using len seen' df' by simp
  then show ?thesis
    using drop by simp
qed

lemma mod_distinct_in_window:
  fixes m n cap :: nat
  assumes "m < n" "n - m < cap"
  shows "m mod cap \<noteq> n mod cap"
proof
  assume "m mod cap = n mod cap"
  then have "(n - m) mod cap = 0"
    using assms(1) by (metis mod_eq_dvd_iff_nat dvd_imp_mod_0 less_imp_le_nat)
  moreover have "(n - m) mod cap = n - m"
    using assms(2) by simp
  ultimately show False
    using assms(1) by simp
qed

lemma window_short: "length p \<le> cap \<Longrightarrow> window cap p = p"
  by (simp add: window_def)

lemma window_snoc_short: "length p < cap \<Longrightarrow> window cap (p @ [c]) = window cap p @ [c]"
  by (simp add: window_def)

lemma window_full:
  assumes "cap \<le> length p" "0 < cap"
  shows "window cap p = p ! (length p - cap) # drop (Suc (length p - cap)) p"
    "window cap (p @ [c]) = drop (Suc (length p - cap)) p @ [c]"
proof -
  have lt: "length p - cap < length p"
    using assms by simp
  show "window cap p = p ! (length p - cap) # drop (Suc (length p - cap)) p"
    unfolding window_def using lt by (simp add: Cons_nth_drop_Suc)
  have "length (p @ [c]) - cap = Suc (length p - cap)"
    using assms by simp
  then show "window cap (p @ [c]) = drop (Suc (length p - cap)) p @ [c]"
    unfolding window_def using lt by simp
qed

lemma Push_holds:
  assumes "buffer_holds cap p b" "list_all is_lower p" "is_lower c"
  shows "\<exists>b'. Push b c = Some b' \<and> buffer_holds cap (p @ [c]) b'"
proof -
  have inv: "length (buf b) = 14" "capacity b = cap" "0 < cap" "cap \<le> 14"
      "cur_size b = min (length p) cap"
      "buf_start b = (if length p \<le> cap then 0 else length p mod cap)"
      "counts_ok (window cap p) b"
    and ring: "\<And>m. length p - cap \<le> m \<Longrightarrow> m < length p \<Longrightarrow> buf b ! (m mod cap) = p ! m"
    using assms(1) by (simp_all add: buffer_holds_def)
  show ?thesis
  proof (cases "length p < cap")
    case True
    let ?b = "b\<lparr>buf := (buf b)[cur_size b := c], cur_size := cur_size b + 1\<rparr>"
    have size: "cur_size b = length p"
      using True inv(5) by simp
    have cnt: "counts_ok (window cap p) ?b"
      using inv(7) by (simp add: counts_ok_def)
    obtain b' where b': "added ?b c = Some b'" "counts_ok (window cap p @ [c]) b'"
        "buf b' = buf ?b" "buf_start b' = buf_start ?b" "capacity b' = capacity ?b"
        "cur_size b' = cur_size ?b"
      using added_counts [OF cnt assms(3)] by blast
    have push: "Push b c = Some b'"
      using True size inv(1,2,4) b'(1) by (simp add: Push_def)
    have ring': "buf b' ! (m mod cap) = (p @ [c]) ! m"
      if "length (p @ [c]) - cap \<le> m" "m < length (p @ [c])" for m
    proof -
      have m: "m mod cap = m"
        using that(2) True by simp
      show ?thesis
      proof (cases "m = length p")
        case True
        then show ?thesis
          using m size inv(1,4) \<open>length p < cap\<close> b'(3) by simp
      next
        case False
        then have lt: "m < length p"
          using that(2) by simp
        then have "buf b ! (m mod cap) = p ! m"
          using True by (intro ring) simp_all
        then show ?thesis
          using m lt size b'(3) by (simp add: nth_append)
      qed
    qed
    have "buffer_holds cap (p @ [c]) b'"
      unfolding buffer_holds_def
      using inv True size b' ring' by (simp add: window_snoc_short)
    then show ?thesis
      using push by blast
  next
    case False
    then have full: "cap \<le> length p"
      by simp
    have size: "cur_size b = cap"
      using full inv(5) by simp
    have st: "buf_start b = length p mod cap"
      using full inv(6) by (cases "length p = cap") simp_all
    have st_lt: "buf_start b < cap"
      unfolding st using inv(3) by simp
    let ?start = "if buf_start b + 1 = cur_size b then 0 else buf_start b + 1"
    have start: "?start = (length p + 1) mod cap"
      unfolding st size using inv(3) by (simp add: mod_Suc)
    let ?d = "p ! (length p - cap)"
    have "buf b ! ((length p - cap) mod cap) = ?d"
      using full inv(3) by (intro ring) simp_all
    moreover have "(length p - cap) mod cap = length p mod cap"
      using full by (simp add: le_mod_geq)
    ultimately have old: "buf b ! buf_start b = ?d"
      using st by simp
    have d_lower: "is_lower ?d"
      using assms(2) full inv(3) by (simp add: list_all_length)
    let ?b0 = "b\<lparr>buf_start := ?start\<rparr>"
    have w: "window cap p = ?d # drop (Suc (length p - cap)) p"
      "window cap (p @ [c]) = drop (Suc (length p - cap)) p @ [c]"
      using window_full [OF full inv(3)] by simp_all
    have cnt0: "counts_ok (?d # drop (Suc (length p - cap)) p) ?b0"
      using inv(7) unfolding w(1) by (simp add: counts_ok_def)
    obtain b1 where b1: "dropped ?b0 ?d = Some b1" "counts_ok (drop (Suc (length p - cap)) p) b1"
        "buf b1 = buf ?b0" "buf_start b1 = buf_start ?b0" "capacity b1 = capacity ?b0"
        "cur_size b1 = cur_size ?b0"
      using dropped_counts [OF cnt0 d_lower] by blast
    let ?b2 = "b1\<lparr>buf := (buf b1)[buf_start b := c]\<rparr>"
    have cnt2: "counts_ok (drop (Suc (length p - cap)) p) ?b2"
      using b1(2) by (simp add: counts_ok_def)
    obtain b' where b': "added ?b2 c = Some b'"
        "counts_ok (drop (Suc (length p - cap)) p @ [c]) b'"
        "buf b' = buf ?b2" "buf_start b' = buf_start ?b2" "capacity b' = capacity ?b2"
        "cur_size b' = cur_size ?b2"
      using added_counts [OF cnt2 assms(3)] by blast
    have in_buf: "buf_start b < length (buf b)"
      using st_lt inv(1,4) by simp
    have push: "Push b c = Some b'"
      using size inv(2) in_buf old b1(1) b'(1) by (simp add: Push_def Let_def)
    have buf': "buf b' = (buf b)[length p mod cap := c]"
      using b'(3) b1(3) st by simp
    have ring': "buf b' ! (m mod cap) = (p @ [c]) ! m"
      if "length (p @ [c]) - cap \<le> m" "m < length (p @ [c])" for m
    proof (cases "m = length p")
      case True
      then show ?thesis
        using buf' in_buf st by simp
    next
      case False
      then have lt: "m < length p"
        using that(2) by simp
      have "length p - m < cap"
        using that(1) full lt by simp
      then have "m mod cap \<noteq> length p mod cap"
        using lt by (intro mod_distinct_in_window)
      moreover have "buf b ! (m mod cap) = p ! m"
        using that(1) lt by (intro ring) simp_all
      ultimately show ?thesis
        using buf' lt by (simp add: nth_append)
    qed
    have len': "\<not> length (p @ [c]) \<le> cap"
      using full by simp
    have "buffer_holds cap (p @ [c]) b'"
      unfolding buffer_holds_def w(2)
      using inv(1-4) b'(2-6) b1(3-6) size full start ring' len' by simp
    then show ?thesis
      using push by blast
  qed
qed

lemma window_length: "length (window cap p) = min (length p) cap"
  by (simp add: window_def)

lemma window_of_prefix:
  assumes "cap \<le> length p"
  shows "take cap (drop (length p - cap) (p @ cs)) = window cap p"
  using assms by (simp add: window_def)

lemma full_window_distinct:
  assumes "cap \<le> length p"
  shows "card (set (window cap p)) = cap \<longleftrightarrow> distinct (window cap p)"
proof -
  have "length (window cap p) = cap"
    using assms by (simp add: window_length)
  then show ?thesis
    by (metis card_distinct distinct_card)
qed

lemma different_small:
  assumes "buffer_holds cap p b"
  shows "different b mod 18446744073709551616 = int (card (set (window cap p)))"
proof -
  have d: "different b = int (card (set (window cap p)))" and cap: "cap \<le> 14"
    using assms by (simp_all add: buffer_holds_def counts_ok_def)
  have "card (set (window cap p)) \<le> length (window cap p)"
    by (rule card_length)
  then have "card (set (window cap p)) \<le> 14"
    using cap by (simp add: window_length)
  then have "int (card (set (window cap p))) < 18446744073709551616"
    by linarith
  then show ?thesis
    unfolding d by (intro mod_pos_pos_trivial) simp_all
qed

lemma day06_loop_first_marker:
  assumes "buffer_holds cap p b" "list_all is_lower (p @ cs)"
  shows "day06_loop cs (length p) cap b =
    (case first_marker cap (p @ cs) (length p) of
       None \<Rightarrow> Failure (InternalError ''no answer found'')
     | Some i \<Rightarrow> Answer (to_string (int (i + 1))))"
  using assms
proof (induction cs arbitrary: p b)
  case Nil
  then show ?case by (simp add: first_marker_def)
next
  case (Cons c cs)
  let ?s = "p @ c # cs"
  let ?i = "length p"
  have lower: "list_all is_lower p" "is_lower c" "list_all is_lower ((p @ [c]) @ cs)"
    using Cons.prems(2) by simp_all
  obtain b' where b': "Push b c = Some b'" "buffer_holds cap (p @ [c]) b'"
    using Push_holds [OF Cons.prems(1) lower(1,2)] by blast
  have diff: "different b' mod 18446744073709551616 = int (card (set (window cap (p @ [c]))))"
    using b'(2) by (rule different_small)
  have test: "(?i \<ge> cap \<and> different b' mod 18446744073709551616 = int cap)
      \<longleftrightarrow> marker_at cap ?s ?i"
  proof (cases "cap \<le> ?i")
    case True
    then have full: "cap \<le> length (p @ [c])"
      by simp
    have "take cap (drop (?i + 1 - cap) ?s) = window cap (p @ [c])"
      using window_of_prefix [OF full, of cs] by simp
    then show ?thesis
      using True diff full_window_distinct [OF full] by (simp add: marker_at_def)
  next
    case False
    then show ?thesis by (simp add: marker_at_def)
  qed
  have "?i < length ?s"
    by simp
  then have upt: "[?i..<length ?s] = ?i # [Suc ?i..<length ?s]"
    by (rule upt_conv_Cons)
  have fm: "first_marker cap ?s ?i =
      (if marker_at cap ?s ?i then Some ?i else first_marker cap ?s (Suc ?i))"
    unfolding first_marker_def by (subst upt) simp
  have ih: "day06_loop cs (length (p @ [c])) cap b' =
      (case first_marker cap ((p @ [c]) @ cs) (length (p @ [c])) of
         None \<Rightarrow> Failure (InternalError ''no answer found'')
       | Some i \<Rightarrow> Answer (to_string (int (i + 1))))"
    using b'(2) lower(3) by (rule Cons.IH)
  have step: "day06_loop (c # cs) ?i cap b =
      (if marker_at cap ?s ?i then Answer (to_string (int (?i + 1)))
       else day06_loop cs (?i + 1) cap b')"
    using b'(1) by (simp only: day06_loop.simps option.case test)
  show ?case
  proof (cases "marker_at cap ?s ?i")
    case True
    then show ?thesis
      unfolding step fm by simp
  next
    case False
    then show ?thesis
      unfolding step fm using ih by simp
  qed
qed

lemma Buffer_init_holds:
  assumes "0 < cap" "cap \<le> 14"
  shows "buffer_holds cap [] (Buffer_init cap)"
proof -
  have "replicate 26 (0 :: int) ! nat (letter_index c) = int (count_list [] c)" if "is_lower c" for c
    using letter_index_lower [OF that] by simp
  then have "counts_ok [] (Buffer_init cap)"
    by (simp add: counts_ok_def Buffer_init_def)
  then show ?thesis
    using assms by (simp add: buffer_holds_def Buffer_init_def window_def)
qed

text \<open>
  What \<open>solve\<close> computes on a non-empty input of lowercase letters, with a newline at
  the end or not: the first position from \<open>capacity\<close> on (zero-based) whose character
  completes \<open>capacity\<close> different characters in a row, plus one; an error if there is
  none.
\<close>

theorem day06_solve_first_marker:
  assumes "input \<noteq> []"
    and "list_all is_lower (if last input = CHR 0x0A then butlast input else input)"
  shows "day06_solve input part1 =
    (case first_marker (if part1 then 4 else 14)
            (if last input = CHR 0x0A then butlast input else input) 0 of
       None \<Rightarrow> Failure (InternalError ''no answer found'')
     | Some i \<Rightarrow> Answer (to_string (int (i + 1))))"
proof -
  let ?cap = "if part1 then 4 else 14 :: nat"
  let ?cropped = "if last input = CHR 0x0A then butlast input else input"
  have crop: "(if last input = CHR 0x0A then substr input 0 (length input - 1) else Some input)
      = Some ?cropped"
    by (simp add: substr_def butlast_conv_take)
  have "buffer_holds ?cap [] (Buffer_init ?cap)"
    by (rule Buffer_init_holds) simp_all
  then have "day06_loop ?cropped (length ([] :: string)) ?cap (Buffer_init ?cap) =
      (case first_marker ?cap ([] @ ?cropped) (length ([] :: string)) of
         None \<Rightarrow> Failure (InternalError ''no answer found'')
       | Some i \<Rightarrow> Answer (to_string (int (i + 1))))"
    using assms(2) by (intro day06_loop_first_marker) simp_all
  then show ?thesis
    using assms(1) unfolding day06_solve_def crop by (simp add: Let_def)
qed

theorem day06_solve_first_marker_witness:
  "day06_solve ''mjqjpqmgbljsphdztnvjfqwrcgsmlb\<newline>'' True = Answer ''7''
   \<and> day06_solve ''abcd'' True = Failure (InternalError ''no answer found'')"
proof -
  have 1: "''mjqjpqmgbljsphdztnvjfqwrcgsmlb\<newline>'' \<noteq> []" "''abcd'' \<noteq> []"
    by simp_all
  have 2: "list_all is_lower (if last ''mjqjpqmgbljsphdztnvjfqwrcgsmlb\<newline>'' = CHR 0x0A
      then butlast ''mjqjpqmgbljsphdztnvjfqwrcgsmlb\<newline>'' else ''mjqjpqmgbljsphdztnvjfqwrcgsmlb\<newline>'')"
    by code_simp
  have 3: "list_all is_lower (if last ''abcd'' = CHR 0x0A then butlast ''abcd'' else ''abcd'')"
    by code_simp
  have 4: "(case first_marker (if True then 4 else 14)
            (if last ''mjqjpqmgbljsphdztnvjfqwrcgsmlb\<newline>'' = CHR 0x0A
             then butlast ''mjqjpqmgbljsphdztnvjfqwrcgsmlb\<newline>'' else ''mjqjpqmgbljsphdztnvjfqwrcgsmlb\<newline>'') 0 of
       None \<Rightarrow> Failure (InternalError ''no answer found'')
     | Some i \<Rightarrow> Answer (to_string (int (i + 1)))) = Answer ''7''"
    by code_simp
  have 5: "(case first_marker (if True then 4 else 14)
            (if last ''abcd'' = CHR 0x0A then butlast ''abcd'' else ''abcd'') 0 of
       None \<Rightarrow> Failure (InternalError ''no answer found'')
     | Some i \<Rightarrow> Answer (to_string (int (i + 1)))) = Failure (InternalError ''no answer found'')"
    by code_simp
  show ?thesis
    using day06_solve_first_marker [OF 1(1) 2, of True] day06_solve_first_marker [OF 1(2) 3, of True]
    unfolding 4 5 by (rule conjI)
qed

lemma find_agree: "(\<And>x. x \<in> set xs \<Longrightarrow> P x = Q x) \<Longrightarrow> find P xs = find Q xs"
  by (induction xs) simp_all

lemma first_marker_first_run_end:
  assumes "0 < cap" "length s < cap \<or> \<not> distinct (take cap s)"
  shows "first_marker cap s 0 = first_run_end cap s"
  unfolding first_marker_def first_run_end_def
proof (rule find_agree)
  fix i assume "i \<in> set [0..<length s]"
  then have i: "i < length s"
    by simp
  consider "cap \<le> i" | "i + 1 = cap" | "i + 1 < cap"
    by linarith
  then show "marker_at cap s i = run_ends_at cap s i"
  proof cases
    case 1
    then show ?thesis
      using i by (simp add: marker_at_def run_ends_at_def)
  next
    case 2
    then have "\<not> length s < cap"
      using i by simp
    then have "\<not> distinct (take cap s)"
      using assms(2) by simp
    then show ?thesis
      using 2 by (auto simp: marker_at_def run_ends_at_def)
  next
    case 3
    then show ?thesis
      by (simp add: marker_at_def run_ends_at_def)
  qed
qed

text \<open>
  Day 6, where the code is right. On a non-empty input of lowercase letters, with a
  newline at the end or not, whose first \<open>capacity\<close> characters are not pairwise
  different, \<open>solve\<close> returns the one-based position of the character that completes
  the first run of \<open>capacity\<close> pairwise different characters, and an error if there is
  no such run.
\<close>

theorem day06_first_run_unless_at_start:
  assumes "input \<noteq> []"
    and "s = (if last input = CHR 0x0A then butlast input else input)"
    and "list_all is_lower s"
    and "cap = (if part1 then 4 else 14)"
    and "length s < cap \<or> \<not> distinct (take cap s)"
  shows "day06_solve input part1 =
    (case first_run_end cap s of
       None \<Rightarrow> Failure (InternalError ''no answer found'')
     | Some i \<Rightarrow> Answer (to_string (int (i + 1))))"
proof -
  have "0 < cap"
    using assms(4) by simp
  then have "first_marker cap s 0 = first_run_end cap s"
    using assms(5) by (rule first_marker_first_run_end)
  moreover have "day06_solve input part1 =
    (case first_marker cap s 0 of
       None \<Rightarrow> Failure (InternalError ''no answer found'')
     | Some i \<Rightarrow> Answer (to_string (int (i + 1))))"
    unfolding assms(2,4) using assms(1) assms(3) [unfolded assms(2)]
    by (rule day06_solve_first_marker)
  ultimately show ?thesis
    by simp
qed

theorem day06_first_run_unless_at_start_witness:
  "day06_solve ''mjqjpqmgbljsphdztnvjfqwrcgsmlb\<newline>'' True = Answer ''7''
   \<and> day06_solve ''mjqjpqmgbljsphdztnvjfqwrcgsmlb\<newline>'' False = Answer ''19''
   \<and> day06_solve ''abcabcabc'' True = Failure (InternalError ''no answer found'')"
proof -
  have ne: "''mjqjpqmgbljsphdztnvjfqwrcgsmlb\<newline>'' \<noteq> []" "''abcabcabc'' \<noteq> []"
    by simp_all
  have s1: "''mjqjpqmgbljsphdztnvjfqwrcgsmlb'' =
      (if last ''mjqjpqmgbljsphdztnvjfqwrcgsmlb\<newline>'' = CHR 0x0A
       then butlast ''mjqjpqmgbljsphdztnvjfqwrcgsmlb\<newline>'' else ''mjqjpqmgbljsphdztnvjfqwrcgsmlb\<newline>'')"
    by simp
  have s2: "''abcabcabc'' = (if last ''abcabcabc'' = CHR 0x0A then butlast ''abcabcabc'' else ''abcabcabc'')"
    by simp
  have l1: "list_all is_lower ''mjqjpqmgbljsphdztnvjfqwrcgsmlb''"
    by code_simp
  have l2: "list_all is_lower ''abcabcabc''"
    by code_simp
  have c4: "(4 :: nat) = (if True then 4 else 14)" and c14: "(14 :: nat) = (if False then 4 else 14)"
    by simp_all
  have h1: "length ''mjqjpqmgbljsphdztnvjfqwrcgsmlb'' < 4 \<or> \<not> distinct (take 4 ''mjqjpqmgbljsphdztnvjfqwrcgsmlb'')"
    by code_simp
  have h2: "length ''mjqjpqmgbljsphdztnvjfqwrcgsmlb'' < 14 \<or> \<not> distinct (take 14 ''mjqjpqmgbljsphdztnvjfqwrcgsmlb'')"
    by code_simp
  have h3: "length ''abcabcabc'' < 4 \<or> \<not> distinct (take 4 ''abcabcabc'')"
    by code_simp
  have f1: "first_run_end 4 ''mjqjpqmgbljsphdztnvjfqwrcgsmlb'' = Some 6"
    by code_simp
  have f2: "first_run_end 14 ''mjqjpqmgbljsphdztnvjfqwrcgsmlb'' = Some 18"
    by code_simp
  have f3: "first_run_end 4 ''abcabcabc'' = None"
    by code_simp
  have t7: "to_string 7 = ''7''" and t19: "to_string 19 = ''19''"
    by code_simp+
  show ?thesis
    using day06_first_run_unless_at_start [OF ne(1) s1 l1 c4 h1]
      day06_first_run_unless_at_start [OF ne(1) s1 l1 c14 h2]
      day06_first_run_unless_at_start [OF ne(2) s2 l2 c4 h3]
    unfolding f1 f2 f3 by (simp add: t7 t19)
qed

text \<open>
  \<open>SimpleAtoi\<close> on a decimal integer: it returns the value if the value fits in an
  \<open>int\<close>, and fails otherwise.
\<close>

theorem SimpleAtoi_decimal_iff:
  assumes "is_decimal l"
  shows "SimpleAtoi l = (if in_int (decimal_value l) then Some (decimal_value l) else None)"
proof (cases "in_int (decimal_value l)")
  case True
  then show ?thesis
    using SimpleAtoi_decimal [OF assms] by simp
next
  case False
  then show ?thesis
    using SimpleAtoi_decimal_overflow [OF assms] by simp
qed

theorem SimpleAtoi_decimal_iff_witness:
  "SimpleAtoi ''-2147483648'' = Some (- 2147483648) \<and> SimpleAtoi ''2147483648'' = None"
proof -
  have d: "is_decimal ''-2147483648''" "is_decimal ''2147483648''"
    by code_simp+
  have v: "decimal_value ''-2147483648'' = - 2147483648" "decimal_value ''2147483648'' = 2147483648"
    by code_simp+
  have r: "in_int (- 2147483648)" "\<not> in_int 2147483648"
    by (simp_all add: in_int_def INT_MIN_def INT_MAX_def)
  show ?thesis
    using SimpleAtoi_decimal_iff [OF d(1)] SimpleAtoi_decimal_iff [OF d(2)]
    unfolding v using r by simp
qed

end
